theory Spec2Isabelle
  imports Main "HOL-Library.Char_ord" "HOL-Library.AList"
begin

section \<open>The regular expressions of the host\<close>

text \<open>
  \<^verbatim>\<open>scanner.es6\<close> builds its regular expressions with the \<^verbatim>\<open>re\<close> template tag and runs
  them with the host's \<^verbatim>\<open>RegExp\<close>. A regular expression object is modelled by its source
  text, the pattern that the host parses the text into, and its flags. Strings are lists
  of 8-bit characters, so the model covers the Latin-1 part of a JavaScript string; lengths
  and offsets count characters, as \<^verbatim>\<open>length\<close> and \<^verbatim>\<open>lastIndex\<close> count code units.

  The patterns of this program use character classes, concatenation, ordered alternation,
  greedy repetition, the anchors \<^verbatim>\<open>^\<close> and \<^verbatim>\<open>$\<close>, and one capturing group around a whole
  pattern (\<^verbatim>\<open>captureRE\<close>); back references and look-ahead do not occur and are not modelled.
\<close>

datatype rx =
    REps
  | RCls bool "(char \<times> char) list"
  | RSeq rx rx
  | RAlt rx rx
  | RStar rx
  | RGrp rx
  | RBol
  | REol

definition RChr :: "char \<Rightarrow> rx" where
  "RChr c = RCls False [(c, c)]"

definition RPlus :: "rx \<Rightarrow> rx" where
  "RPlus r = RSeq r (RStar r)"

definition ROpt :: "rx \<Rightarrow> rx" where
  "ROpt r = RAlt r REps"

definition inRange :: "char \<Rightarrow> char \<times> char \<Rightarrow> bool" where
  "inRange c r = (fst r \<le> c \<and> c \<le> snd r)"

definition toUpper :: "char \<Rightarrow> char" where
  "toUpper c =
     (if (CHR ''a'' \<le> c \<and> c \<le> CHR ''z'') \<or> (CHR 0xE0 \<le> c \<and> c \<le> CHR 0xFE \<and> c \<noteq> CHR 0xF7)
      then char_of (of_char c - (32::nat)) else c)"

definition toLower :: "char \<Rightarrow> char" where
  "toLower c =
     (if (CHR ''A'' \<le> c \<and> c \<le> CHR ''Z'') \<or> (CHR 0xC0 \<le> c \<and> c \<le> CHR 0xDE \<and> c \<noteq> CHR 0xD7)
      then char_of (of_char c + (32::nat)) else c)"

text \<open>
  Membership of a character in a class given by ranges; with the flag \<^verbatim>\<open>i\<close> the host
  compares canonical (upper case) forms, so the character matches when it, its upper case
  or its lower case form is in the class.
\<close>

definition inCls :: "bool \<Rightarrow> (char \<times> char) list \<Rightarrow> char \<Rightarrow> bool" where
  "inCls ic rs c =
     (if ic then list_ex (\<lambda>a. list_ex (inRange a) rs) [c, toUpper c, toLower c]
      else list_ex (inRange c) rs)"

text \<open>
  The backtracking matcher. \<open>ends ic L r s\<close> lists, in the order in which the host's
  backtracking tries them, what remains of \<open>s\<close> after each way \<open>r\<close> matches a prefix of
  \<open>s\<close>; \<open>L\<close> is the length of the whole subject (for \<^verbatim>\<open>^\<close>) and \<open>ic\<close> the flag \<^verbatim>\<open>i\<close>.
  Repetition is greedy and, as in the host, an iteration that consumes nothing is not
  repeated.
\<close>

fun ends :: "bool \<Rightarrow> nat \<Rightarrow> rx \<Rightarrow> string \<Rightarrow> string list" where
  "ends ic L REps s = [s]"
| "ends ic L (RCls neg rs) s =
     (case s of [] \<Rightarrow> [] | c # s' \<Rightarrow> if inCls ic rs c \<noteq> neg then [s'] else [])"
| "ends ic L (RSeq a b) s = concat (map (ends ic L b) (ends ic L a s))"
| "ends ic L (RAlt a b) s = ends ic L a s @ ends ic L b s"
| "ends ic L (RStar a) s =
     concat (map (\<lambda>s'. if length s' < length s then ends ic L (RStar a) s' else [])
                 (ends ic L a s)) @ [s]"
| "ends ic L (RGrp a) s = ends ic L a s"
| "ends ic L RBol s = (if length s = L then [s] else [])"
| "ends ic L REol s = (if s = [] then [s] else [])"

declare ends.simps(5) [simp del]

record RegExp =
  source :: string
  pattern :: rx
  flags :: string

definition ignoreCase :: "RegExp \<Rightarrow> bool" where
  "ignoreCase RE = (CHR ''i'' \<in> set (flags RE))"

definition sticky :: "RegExp \<Rightarrow> bool" where
  "sticky RE = (CHR ''y'' \<in> set (flags RE))"

definition global :: "RegExp \<Rightarrow> bool" where
  "global RE = (CHR ''g'' \<in> set (flags RE))"

text \<open>The end index of the first match of \<open>RE\<close> in \<open>str\<close> that starts at index \<open>i\<close>.\<close>

definition matchAt :: "RegExp \<Rightarrow> string \<Rightarrow> nat \<Rightarrow> nat option" where
  "matchAt RE str i =
     (case ends (ignoreCase RE) (length str) (pattern RE) (drop i str) of
        [] \<Rightarrow> None
      | rest # _ \<Rightarrow> Some (length str - length rest))"

text \<open>The leftmost match that starts at one of the given indices: start and end index.\<close>

fun searchFrom :: "RegExp \<Rightarrow> string \<Rightarrow> nat list \<Rightarrow> (nat \<times> nat) option" where
  "searchFrom RE str [] = None"
| "searchFrom RE str (i # is) =
     (case matchAt RE str i of Some e \<Rightarrow> Some (i, e) | None \<Rightarrow> searchFrom RE str is)"

text \<open>
  The match array of \<^verbatim>\<open>exec\<close>: \<open>index\<close>, element 0 (the matched text) and element 1 (the
  text of the first capturing group, \<open>None\<close> for \<^verbatim>\<open>undefined\<close>). Only a group that wraps the
  whole pattern is tracked, which is the only place where the program makes one.
\<close>

record MatchArray =
  index :: nat
  arr0 :: string
  arr1 :: "string option"

definition mkArray :: "RegExp \<Rightarrow> string \<Rightarrow> nat \<Rightarrow> nat \<Rightarrow> MatchArray" where
  "mkArray RE str i e =
     (let m = take (e - i) (drop i str)
      in \<lparr>index = i, arr0 = m,
          arr1 = (case pattern RE of RGrp r \<Rightarrow> Some m | _ \<Rightarrow> None)\<rparr>)"

text \<open>
  \<^verbatim>\<open>RE.exec(str)\<close> with \<^verbatim>\<open>RE.lastIndex = lastIndex\<close>: the match array (\<open>None\<close> for
  \<^verbatim>\<open>null\<close>) and the new value of \<^verbatim>\<open>lastIndex\<close>. A sticky regular expression matches at
  \<^verbatim>\<open>lastIndex\<close> only. When a sticky or global one fails, the host sets \<^verbatim>\<open>lastIndex\<close> to 0
  (the shim \<^verbatim>\<open>stickyExec\<close> of lines 59-68 does the same).
\<close>

definition exec :: "RegExp \<Rightarrow> nat \<Rightarrow> string \<Rightarrow> MatchArray option \<times> nat" where
  "exec RE lastIndex str =
     (let useLast = (sticky RE \<or> global RE);
          i0 = (if useLast then lastIndex else 0)
      in if length str < i0 then (None, if useLast then 0 else lastIndex)
         else
           (case (if sticky RE then map_option (Pair i0) (matchAt RE str i0)
                  else searchFrom RE str [i0..<Suc (length str)]) of
              None \<Rightarrow> (None, if useLast then 0 else lastIndex)
            | Some (i, e) \<Rightarrow>
                (Some (mkArray RE str i e), if useLast then e else lastIndex)))"

text \<open>\<^verbatim>\<open>RE.test(str)\<close> on a regular expression that was just made (\<^verbatim>\<open>lastIndex\<close> is 0).\<close>

definition test :: "RegExp \<Rightarrow> string \<Rightarrow> bool" where
  "test RE str = (fst (exec RE 0 str) \<noteq> None)"

text \<open>
  \<^verbatim>\<open>RegExp(text, flags)\<close>: the host parses \<open>text\<close> into the pattern \<open>p\<close>; the source of the
  empty text reads \<^verbatim>\<open>(?:)\<close>.
\<close>

definition RegExp_new :: "string \<Rightarrow> rx \<Rightarrow> string \<Rightarrow> RegExp" where
  "RegExp_new txt p fl =
     \<lparr>source = (if txt = [] then ''(?:)'' else txt), pattern = p, flags = fl\<rparr>"

subsection \<open>The regular expressions of \<^verbatim>\<open>scanner.es6\<close>, lines 13-25\<close>

abbreviation bsl :: char where
  "bsl \<equiv> CHR 0x5C"

abbreviation dquote :: char where
  "dquote \<equiv> CHR 0x22"

definition space_cls :: "(char \<times> char) list" where
  "space_cls = [(CHR 0x09, CHR 0x0D), (CHR 0x20, CHR 0x20), (CHR 0xA0, CHR 0xA0)]"

definition digit_cls :: "(char \<times> char) list" where
  "digit_cls = [(CHR ''0'', CHR ''9'')]"

definition word_cls :: "(char \<times> char) list" where
  "word_cls = [(CHR ''a'', CHR ''z''), (CHR ''A'', CHR ''Z''), (CHR ''0'', CHR ''9''),
               (CHR ''_'', CHR ''_'')]"

definition SPACE_RE :: RegExp where
  "SPACE_RE = \<lparr>source = bsl # ''s+'', pattern = RPlus (RCls False space_cls), flags = ''''\<rparr>"

definition NUMBER_RE :: RegExp where
  "NUMBER_RE =
     \<lparr>source = ''-?'' @ bsl # ''d+(?:'' @ bsl # ''.'' @ bsl # ''d+)?(?:[eE]-?'' @ bsl # ''d+)?'',
      pattern =
        RSeq (ROpt (RChr CHR ''-''))
       (RSeq (RPlus (RCls False digit_cls))
       (RSeq (ROpt (RSeq (RChr CHR ''.'') (RPlus (RCls False digit_cls))))
             (ROpt (RSeq (RCls False [(CHR ''e'', CHR ''e''), (CHR ''E'', CHR ''E'')])
                   (RSeq (ROpt (RChr CHR ''-'')) (RPlus (RCls False digit_cls))))))),
      flags = ''''\<rparr>"

definition hex_cls :: "(char \<times> char) list" where
  "hex_cls = digit_cls @ [(CHR ''a'', CHR ''f''), (CHR ''A'', CHR ''F'')]"

definition UCODE_RE :: RegExp where
  "UCODE_RE =
     \<lparr>source = [bsl, bsl] @ ''u['' @ bsl # ''da-fA-F]{4}'',
      pattern =
        RSeq (RChr bsl) (RSeq (RChr CHR ''u'')
       (RSeq (RCls False hex_cls) (RSeq (RCls False hex_cls)
       (RSeq (RCls False hex_cls) (RCls False hex_cls))))),
      flags = ''''\<rparr>"

text \<open>
  Modelled from the spec: the \<^verbatim>\<open>re\<close> template tag of \<^verbatim>\<open>qregexp.es6\<close>, which is not part
  of the sources. A regular expression substituted into the template stands there as a
  unit (spliced as a non-capturing group), and the flags passed to \<^verbatim>\<open>re\<close> become the flags
  of the result.
\<close>

definition splice :: "RegExp \<Rightarrow> string" where
  "splice RE = ''(?:'' @ source RE @ '')''"

definition CHAR_RE :: RegExp where
  "CHAR_RE =
     \<lparr>source = ''[^'' @ [bsl, dquote, bsl, bsl] @ '']|'' @ [bsl, bsl, dquote] @ ''|''
               @ [bsl, bsl, bsl, bsl] @ ''|'' @ [bsl, bsl, bsl] @ ''/|''
               @ [bsl, bsl] @ ''b|'' @ [bsl, bsl] @ ''f|'' @ [bsl, bsl] @ ''n|''
               @ [bsl, bsl] @ ''r|'' @ [bsl, bsl] @ ''t|'' @ splice UCODE_RE,
      pattern =
        RAlt (RCls True [(dquote, dquote), (bsl, bsl)])
       (RAlt (RSeq (RChr bsl) (RChr dquote))
       (RAlt (RSeq (RChr bsl) (RChr bsl))
       (RAlt (RSeq (RChr bsl) (RChr CHR ''/''))
       (RAlt (RSeq (RChr bsl) (RChr CHR ''b''))
       (RAlt (RSeq (RChr bsl) (RChr CHR ''f''))
       (RAlt (RSeq (RChr bsl) (RChr CHR ''n''))
       (RAlt (RSeq (RChr bsl) (RChr CHR ''r''))
       (RAlt (RSeq (RChr bsl) (RChr CHR ''t''))
             (pattern UCODE_RE))))))))),
      flags = ''''\<rparr>"

definition STRING_RE :: RegExp where
  "STRING_RE =
     \<lparr>source = [bsl, dquote] @ splice CHAR_RE @ ''*'' @ [bsl, dquote],
      pattern = RSeq (RChr dquote) (RSeq (RStar (pattern CHAR_RE)) (RChr dquote)),
      flags = ''''\<rparr>"

definition IDENT_RE :: RegExp where
  "IDENT_RE =
     \<lparr>source = ''[a-zA-Z_'' @ bsl # ''$]['' @ bsl # ''w'' @ bsl # ''$]*'',
      pattern =
        RSeq (RCls False [(CHR ''a'', CHR ''z''), (CHR ''A'', CHR ''Z''), (CHR ''_'', CHR ''_''),
                          (CHR ''$'', CHR ''$'')])
             (RStar (RCls False (word_cls @ [(CHR ''$'', CHR ''$'')]))),
      flags = ''''\<rparr>"

definition SINGLE_OP :: RegExp where
  "SINGLE_OP =
     \<lparr>source = ''['' @ bsl # ''['' @ bsl # '']'' @ bsl # ''('' @ bsl # ''){},;]'',
      pattern = RCls False (map (\<lambda>c. (c, c)) ''[](){},;''),
      flags = ''''\<rparr>"

definition MULTI_OP :: RegExp where
  "MULTI_OP =
     \<lparr>source = ''[:~@%&+=*<>.?|'' @ [bsl, bsl, bsl] @ ''-'' @ bsl # ''^'' @ bsl # ''/]+'',
      pattern = RPlus (RCls False (map (\<lambda>c. (c, c)) ('':~@%&+=*<>.?|'' @ bsl # ''-^/''))),
      flags = ''''\<rparr>"

definition LINE_COMMENT_RE :: RegExp where
  "LINE_COMMENT_RE =
     \<lparr>source = ''#.*'' @ bsl # ''n'',
      pattern =
        RSeq (RChr CHR ''#'')
       (RSeq (RStar (RCls True [(CHR 0x0A, CHR 0x0A), (CHR 0x0D, CHR 0x0D)]))
             (RChr CHR 0x0A)),
      flags = ''''\<rparr>"

subsection \<open>The combinators, lines 28-48\<close>

text \<open>\<^verbatim>\<open>allRE\<close>: the pattern between \<^verbatim>\<open>^\<close> and \<^verbatim>\<open>$\<close>, with the flags of \<open>RE\<close>.\<close>

definition allRE :: "RegExp \<Rightarrow> RegExp" where
  "allRE RE =
     RegExp_new (''^'' @ splice RE @ ''$'') (RSeq RBol (RSeq (pattern RE) REol)) (flags RE)"

text \<open>
  \<^verbatim>\<open>anyRE\<close>: the sources joined with \<^verbatim>\<open>|\<close> and given to \<^verbatim>\<open>RegExp\<close> with no flags. The
  host parses the joined text into the alternation of the patterns, in order.
\<close>

fun join :: "string \<Rightarrow> string list \<Rightarrow> string" where
  "join sep [] = []"
| "join sep [x] = x"
| "join sep (x # y # ys) = x @ sep @ join sep (y # ys)"

fun alternatives :: "rx list \<Rightarrow> rx" where
  "alternatives [] = REps"
| "alternatives [r] = r"
| "alternatives (r # q # rs) = RAlt r (alternatives (q # rs))"

definition anyRE :: "RegExp list \<Rightarrow> RegExp" where
  "anyRE REs =
     RegExp_new (join ''|'' (map source REs)) (alternatives (map pattern REs)) ''''"

definition captureRE :: "RegExp \<Rightarrow> RegExp" where
  "captureRE RE = RegExp_new (''('' @ splice RE @ '')'') (RGrp (pattern RE)) (flags RE)"

datatype error =
    SyntaxError string
  | Error string
  | TypeError string

text \<open>
  \<^verbatim>\<open>stickyRE\<close>, the native variant of line 47. The host refuses a flag that occurs twice,
  so a regular expression that is sticky already makes the constructor throw.
\<close>

definition stickyRE :: "RegExp \<Rightarrow> error + RegExp" where
  "stickyRE RE =
     (if sticky RE then Inl (SyntaxError ''Invalid flags supplied to RegExp constructor'')
      else Inr (RegExp_new (source RE) (pattern RE) (flags RE @ ''y'')))"

definition TOKEN_RE :: RegExp where
  "TOKEN_RE =
     captureRE (anyRE [SPACE_RE, NUMBER_RE, STRING_RE, IDENT_RE, SINGLE_OP, MULTI_OP,
                       LINE_COMMENT_RE])"

section \<open>Positions and tokens, lines 74-155\<close>

datatype Pos = Pos (segmentNum: nat) (start: nat) (after: nat)

datatype Token = Token (tok_text: string) (tok_pos: Pos)

text \<open>An element of the token stream: a token record or a bare hole number.\<close>

datatype element = Tok Token | Hole nat

fun show_nat :: "nat \<Rightarrow> string" where
  "show_nat n =
     (if n < 10 then [char_of (48 + n)]
      else show_nat (n div 10) @ [char_of (48 + n mod 10)])"

declare show_nat.simps [simp del]

definition hexdigit :: "nat \<Rightarrow> char" where
  "hexdigit n = (if n < 10 then char_of (48 + n) else char_of (87 + n))"

text \<open>\<^verbatim>\<open>JSON.stringify\<close> of a string: quoted, with the escapes of JSON.\<close>

definition json_escape :: "char \<Rightarrow> string" where
  "json_escape c =
     (if c = dquote then [bsl, dquote]
      else if c = bsl then [bsl, bsl]
      else if c = CHR 0x08 then [bsl, CHR ''b'']
      else if c = CHR 0x0C then [bsl, CHR ''f'']
      else if c = CHR 0x0A then [bsl, CHR ''n'']
      else if c = CHR 0x0D then [bsl, CHR ''r'']
      else if c = CHR 0x09 then [bsl, CHR ''t'']
      else if c < CHR 0x20
        then bsl # ''u00'' @ [hexdigit (of_char c div 16), hexdigit (of_char c mod 16)]
      else [c])"

definition JSON_stringify :: "string \<Rightarrow> string" where
  "JSON_stringify s = dquote # concat (map json_escape s) @ [dquote]"

definition Pos_toString :: "Pos \<Rightarrow> string" where
  "Pos_toString p =
     ''#'' @ show_nat (segmentNum p) @ ''@'' @ show_nat (start p) @ '':'' @ show_nat (after p)"

definition Token_toString :: "Token \<Rightarrow> string" where
  "Token_toString t = JSON_stringify (tok_text t) @ '' at '' @ Pos_toString (tok_pos t)"

section \<open>The lexer\<close>

text \<open>
  The loop of \<^verbatim>\<open>tokensInSegment\<close> (lines 102-119). Its state is \<^verbatim>\<open>RE.lastIndex\<close>,
  \<^verbatim>\<open>expectedIndex\<close> and \<^verbatim>\<open>result\<close>. The loop runs as long as the regular expression moves
  \<^verbatim>\<open>lastIndex\<close>, so a run that never ends is the value \<open>None\<close>. After a failed
  \<^verbatim>\<open>exec\<close> the bad token is built from the value that \<^verbatim>\<open>RE.lastIndex\<close> has then.
\<close>

partial_function (option) tokensInSegment_loop ::
  "nat \<Rightarrow> string \<Rightarrow> RegExp \<Rightarrow> nat \<Rightarrow> nat \<Rightarrow> Token list \<Rightarrow> (error + Token list) option"
where
  "tokensInSegment_loop segNum segment RE lastIndex expectedIndex result =
     (if lastIndex < length segment then
        (case exec RE lastIndex segment of
           (None, lastIndex') \<Rightarrow>
             (let badTok = Token (drop lastIndex' segment)
                                 (Pos segNum lastIndex' (length segment))
              in Some (Inl (SyntaxError (''Unexpected: '' @ Token_toString badTok))))
         | (Some arr, lastIndex') \<Rightarrow>
             (case arr1 arr of
                None \<Rightarrow> Some (Inl (TypeError ''text is undefined''))
              | Some txt \<Rightarrow>
                  (let actualStart = int lastIndex' - int (length txt);
                       tok = Token txt (Pos segNum (nat actualStart) lastIndex')
                   in if int expectedIndex \<noteq> actualStart
                      then Some (Inl (Error (''Internal: '' @ Token_toString tok
                                               @ '' expected at '' @ show_nat expectedIndex)))
                      else tokensInSegment_loop segNum segment RE lastIndex' lastIndex'
                             (result @ [tok]))))
      else Some (Inr result))"

declare tokensInSegment_loop.simps [code]

definition tokensInSegment ::
  "nat \<Rightarrow> string \<Rightarrow> RegExp \<Rightarrow> (error + Token list) option"
where
  "tokensInSegment segNum segment RE =
     (case stickyRE RE of
        Inl e \<Rightarrow> Some (Inl e)
      | Inr RE' \<Rightarrow> tokensInSegment_loop segNum segment RE' 0 0 [])"

text \<open>
  The loop of \<^verbatim>\<open>tokensInTemplate\<close> (lines 129-134) over \<^verbatim>\<open>segnum\<close>; \<^verbatim>\<open>numSubs\<close> is -1 for
  the empty template.
\<close>

function tokensInTemplate_loop ::
  "string list \<Rightarrow> RegExp \<Rightarrow> nat \<Rightarrow> element list \<Rightarrow> (error + element list) option"
where
  "tokensInTemplate_loop template RE segnum result =
     (if int segnum \<le> int (length template) - 1 then
        (case tokensInSegment segnum (template ! segnum) RE of
           None \<Rightarrow> None
         | Some (Inl e) \<Rightarrow> Some (Inl e)
         | Some (Inr toks) \<Rightarrow>
             tokensInTemplate_loop template RE (Suc segnum)
               (if int segnum < int (length template) - 1
                then (result @ map Tok toks) @ [Hole segnum]
                else result @ map Tok toks))
      else Some (Inr result))"
  by pat_completeness auto
termination
  by (relation "measure (\<lambda>(template, RE, segnum, result). length template - segnum)") auto

declare tokensInTemplate_loop.simps [simp del]

definition tokensInTemplate :: "string list \<Rightarrow> RegExp \<Rightarrow> (error + element list) option" where
  "tokensInTemplate template RE = tokensInTemplate_loop template RE 0 []"

text \<open>Predicates used to state the properties of the lexer.\<close>

fun nullable :: "rx \<Rightarrow> bool" where
  "nullable REps = True"
| "nullable (RCls neg rs) = False"
| "nullable (RSeq a b) = (nullable a \<and> nullable b)"
| "nullable (RAlt a b) = (nullable a \<or> nullable b)"
| "nullable (RStar a) = True"
| "nullable (RGrp a) = nullable a"
| "nullable RBol = True"
| "nullable REol = True"

text \<open>
  The tokens lie in segment \<open>n\<close>, the first starts at offset \<open>i\<close>, each spans its own text
  and starts where the one before it ends.
\<close>

fun contiguous :: "nat \<Rightarrow> nat \<Rightarrow> Token list \<Rightarrow> bool" where
  "contiguous n i [] = True"
| "contiguous n i (t # ts) =
     (segmentNum (tok_pos t) = n \<and> start (tok_pos t) = i \<and> after (tok_pos t) = i + length (tok_text t)
      \<and> contiguous n (after (tok_pos t)) ts)"

fun isHole :: "element \<Rightarrow> bool" where
  "isHole (Hole h) = True"
| "isHole (Tok t) = False"

text \<open>
  The stream that interleaves the token lists \<open>tss\<close> of the segments \<open>k, k + 1, ...\<close> of a
  template with \<open>n\<close> holes: after the tokens of segment \<open>k < n\<close> comes the hole marker \<open>k\<close>.
\<close>

fun interleave :: "nat \<Rightarrow> nat \<Rightarrow> Token list list \<Rightarrow> element list" where
  "interleave n k [] = []"
| "interleave n k (ts # tss) =
     map Tok ts @ (if k < n then [Hole k] else []) @ interleave n (Suc k) tss"

section \<open>The packrat substrate, lines 176-263\<close>

text \<open>
  The value part of a rule's result: \<^verbatim>\<open>FAIL\<close>, \<^verbatim>\<open>EOF\<close>, a string (a token's text), a number
  (a hole number), or a list of values (what a semantic action builds). A result is the
  pair \<^verbatim>\<open>[newPos, value]\<close>.
\<close>

datatype val = FAIL | EOF | Str string | Num nat | List "val list"

type_synonym result = "nat \<times> val"

text \<open>A memo entry is the sentinel \<^verbatim>\<open>LEFT_RECUR\<close> or a result.\<close>

datatype entry = LEFT_RECUR | Result result

text \<open>
  What \<^verbatim>\<open>run\<close> receives as \<^verbatim>\<open>ruleOrPatt\<close>: a function (one of the rule methods of
  \<^verbatim>\<open>Scanner\<close>, or rule procedure number \<open>u\<close> of a grammar), a terminal pattern (a string or
  a regular expression), or \<^verbatim>\<open>undefined\<close>. Keys are compared as the memo \<^verbatim>\<open>Map\<close> compares
  them; a regular expression object is identified with its source, pattern and flags.
\<close>

datatype fnid =
    F_SPACE | F_COMMENT | F_SKIP | F_NUMBER | F_STRING | F_IDENT | F_HOLE | F_EOF
  | F_rule nat

datatype patt = PStr string | PRe RegExp

datatype key = KFun fnid | KPatt patt | KUndef

text \<open>
  The mutable state of a \<^verbatim>\<open>Packratter\<close>: the memo, a \<^verbatim>\<open>Map\<close> from positions to \<^verbatim>\<open>Map\<close>s
  from keys to entries, kept as association lists in insertion order (the order in which
  a \<^verbatim>\<open>Map\<close> is iterated), and the two counters.
\<close>

record Packratter =
  memo :: "(nat \<times> (key \<times> entry) list) list"
  hits :: nat
  misses :: nat

definition new_Packratter :: Packratter where
  "new_Packratter = \<lparr>memo = [], hits = 0, misses = 0\<rparr>"

text \<open>
  A rule procedure of a grammar is a function of the position that returns a result and
  reaches the parser through \<^verbatim>\<open>this.run\<close> only: it returns, or it calls
  \<^verbatim>\<open>this.run(ruleOrPatt, pos, name)\<close> and goes on with the result of the call.
\<close>

datatype proc =
    Return result
  | Run key nat string "result \<Rightarrow> proc"

text \<open>
  The immutable part of a \<^verbatim>\<open>Scanner\<close> that the rules read (the keyword sets and the
  token stream), with the rule procedures that a grammar adds to it.
\<close>

record Scanner =
  "keywords" :: "string set"
  otherTokenTypes :: "string set"
  toks :: "element list"
  rules :: "nat \<Rightarrow> nat \<Rightarrow> proc"

type_synonym outcome = "error + result"

type_synonym runner =
  "key \<Rightarrow> nat \<Rightarrow> string \<Rightarrow> Packratter \<Rightarrow> (outcome \<times> Packratter) option"

text \<open>
  Sequencing: a call that does not return (\<open>None\<close>) or throws (\<open>Inl\<close>) ends the caller
  too.
\<close>

fun andThen ::
  "((error + 'a) \<times> 's) option \<Rightarrow> ('a \<Rightarrow> 's \<Rightarrow> ((error + 'b) \<times> 's) option)
     \<Rightarrow> ((error + 'b) \<times> 's) option"
where
  "andThen None f = None"
| "andThen (Some (Inl e, s)) f = Some (Inl e, s)"
| "andThen (Some (Inr x, s)) f = f x s"

primrec interp :: "runner \<Rightarrow> proc \<Rightarrow> Packratter \<Rightarrow> (outcome \<times> Packratter) option" where
  "interp runf (Return r) st = Some (Inr r, st)"
| "interp runf (Run ruleOrPatt pos name cont) st =
     andThen (runf ruleOrPatt pos name st) (\<lambda>r st'. interp runf (cont r) st')"

section \<open>The scanner, lines 278-396\<close>

text \<open>
  Modelled from the spec: \<^verbatim>\<open>allRE(patt).test(text)\<close> for a string \<open>patt\<close>, which \<^verbatim>\<open>eat\<close>
  evaluates when the string differs from the text. It goes through the \<^verbatim>\<open>re\<close> tag of
  \<^verbatim>\<open>qregexp.es6\<close>, which is not part of the sources; by the spec a string pattern accepts
  the token whose text equals it.
\<close>

definition allRE_test_string :: "string \<Rightarrow> string \<Rightarrow> bool" where
  "allRE_test_string p txt = (txt = p)"

fun patt_accepts :: "patt \<Rightarrow> string \<Rightarrow> bool" where
  "patt_accepts (PStr p) txt = (p = txt \<or> allRE_test_string p txt)"
| "patt_accepts (PRe RE) txt = test (allRE RE) txt"

definition skip :: "Scanner \<Rightarrow> nat \<Rightarrow> RegExp \<Rightarrow> result" where
  "skip sc pos RE =
     (if pos < length (toks sc) then
        (case toks sc ! pos of
           Tok token \<Rightarrow>
             if test (allRE RE) (tok_text token) then (pos + 1, Str []) else (pos, FAIL)
         | Hole h \<Rightarrow> (pos, FAIL))
      else (pos, FAIL))"

definition rule_SPACE :: "Scanner \<Rightarrow> nat \<Rightarrow> result" where
  "rule_SPACE sc pos = skip sc pos SPACE_RE"

definition rule_COMMENT :: "Scanner \<Rightarrow> nat \<Rightarrow> result" where
  "rule_COMMENT sc pos = skip sc pos LINE_COMMENT_RE"

text \<open>
  \<^verbatim>\<open>rule_SKIP\<close>: the first argument bounds the number of times the loop is entered, and
  \<open>runf\<close> is \<^verbatim>\<open>this.run\<close>.
\<close>

fun rule_SKIP ::
  "nat \<Rightarrow> runner \<Rightarrow> Scanner \<Rightarrow> nat \<Rightarrow> Packratter \<Rightarrow> (outcome \<times> Packratter) option"
where
  "rule_SKIP 0 runf sc pos st = None"
| "rule_SKIP (Suc n) runf sc pos st =
     (if pos < length (toks sc) then
        (case toks sc ! pos of
           Hole h \<Rightarrow> Some (Inr (pos, Str []), st)
         | Tok token \<Rightarrow>
             (let pair = rule_SPACE sc pos
              in if snd pair \<noteq> FAIL then rule_SKIP n runf sc (fst pair) st
                 else andThen (runf (KFun F_COMMENT) pos ''COMMENT'' st)
                        (\<lambda>pair st'.
                           if snd pair \<noteq> FAIL then rule_SKIP n runf sc (fst pair) st'
                           else Some (Inr (pos, Str []), st'))))
      else Some (Inr (pos, Str []), st))"

definition eat ::
  "nat \<Rightarrow> runner \<Rightarrow> Scanner \<Rightarrow> nat \<Rightarrow> patt \<Rightarrow> Packratter \<Rightarrow> (outcome \<times> Packratter) option"
where
  "eat n runf sc pos0 p st =
     andThen (rule_SKIP n runf sc pos0 st)
       (\<lambda>pair st'.
          let pos = fst pair
          in Some (Inr (if pos < length (toks sc) then
                          (case toks sc ! pos of
                             Tok token \<Rightarrow>
                               if patt_accepts p (tok_text token) then (pos + 1, Str (tok_text token))
                               else (pos, FAIL)
                           | Hole h \<Rightarrow> (pos, FAIL))
                        else (pos, FAIL)), st'))"

definition rule_NUMBER ::
  "nat \<Rightarrow> runner \<Rightarrow> Scanner \<Rightarrow> nat \<Rightarrow> Packratter \<Rightarrow> (outcome \<times> Packratter) option"
where
  "rule_NUMBER n runf sc pos st = eat n runf sc pos (PRe NUMBER_RE) st"

definition rule_STRING ::
  "nat \<Rightarrow> runner \<Rightarrow> Scanner \<Rightarrow> nat \<Rightarrow> Packratter \<Rightarrow> (outcome \<times> Packratter) option"
where
  "rule_STRING n runf sc pos st = eat n runf sc pos (PRe STRING_RE) st"

definition rule_IDENT ::
  "nat \<Rightarrow> runner \<Rightarrow> Scanner \<Rightarrow> nat \<Rightarrow> Packratter \<Rightarrow> (outcome \<times> Packratter) option"
where
  "rule_IDENT n runf sc pos0 st =
     andThen (rule_SKIP n runf sc pos0 st)
       (\<lambda>pair st'.
          let pos = fst pair
          in Some (Inr (if pos \<ge> length (toks sc) then (pos, FAIL)
                        else (case toks sc ! pos of
                                Hole h \<Rightarrow> (pos, FAIL)
                              | Tok token \<Rightarrow>
                                  if test (allRE IDENT_RE) (tok_text token)
                                     \<and> tok_text token \<notin> keywords sc
                                  then (pos + 1, Str (tok_text token))
                                  else (pos, FAIL))), st'))"

definition rule_HOLE ::
  "nat \<Rightarrow> runner \<Rightarrow> Scanner \<Rightarrow> nat \<Rightarrow> Packratter \<Rightarrow> (outcome \<times> Packratter) option"
where
  "rule_HOLE n runf sc pos0 st =
     andThen (rule_SKIP n runf sc pos0 st)
       (\<lambda>pair st'.
          let pos = fst pair
          in Some (Inr (if pos \<ge> length (toks sc) then (pos, FAIL)
                        else (case toks sc ! pos of
                                Hole h \<Rightarrow> (pos + 1, Num h)
                              | Tok token \<Rightarrow> (pos, FAIL))), st'))"

definition rule_EOF ::
  "nat \<Rightarrow> runner \<Rightarrow> Scanner \<Rightarrow> nat \<Rightarrow> Packratter \<Rightarrow> (outcome \<times> Packratter) option"
where
  "rule_EOF n runf sc pos0 st =
     andThen (rule_SKIP n runf sc pos0 st)
       (\<lambda>pair st'.
          let pos = fst pair
          in Some (Inr (pos, if pos \<ge> length (toks sc) then EOF else FAIL), st'))"

text \<open>\<^verbatim>\<open>ruleOrPatt.call(this, pos)\<close> for each function that can be a key.\<close>

fun call ::
  "nat \<Rightarrow> runner \<Rightarrow> Scanner \<Rightarrow> fnid \<Rightarrow> nat \<Rightarrow> Packratter \<Rightarrow> (outcome \<times> Packratter) option"
where
  "call n runf sc F_SPACE pos st = Some (Inr (rule_SPACE sc pos), st)"
| "call n runf sc F_COMMENT pos st = Some (Inr (rule_COMMENT sc pos), st)"
| "call n runf sc F_SKIP pos st = rule_SKIP n runf sc pos st"
| "call n runf sc F_NUMBER pos st = rule_NUMBER n runf sc pos st"
| "call n runf sc F_STRING pos st = rule_STRING n runf sc pos st"
| "call n runf sc F_IDENT pos st = rule_IDENT n runf sc pos st"
| "call n runf sc F_HOLE pos st = rule_HOLE n runf sc pos st"
| "call n runf sc F_EOF pos st = rule_EOF n runf sc pos st"
| "call n runf sc (F_rule u) pos st = interp runf (rules sc u pos) st"

subsection \<open>\<^verbatim>\<open>Packratter.run\<close>, lines 186-214\<close>

definition posm_of :: "Packratter \<Rightarrow> nat \<Rightarrow> (key \<times> entry) list" where
  "posm_of st pos = (case map_of (memo st) pos of None \<Rightarrow> [] | Some posm \<Rightarrow> posm)"

text \<open>\<^verbatim>\<open>posm.set(ruleOrPatt, e)\<close> on the inner map of position \<open>pos\<close>.\<close>

definition posm_set :: "Packratter \<Rightarrow> nat \<Rightarrow> key \<Rightarrow> entry \<Rightarrow> Packratter" where
  "posm_set st pos ruleOrPatt e =
     st\<lparr>memo := AList.update pos (AList.update ruleOrPatt e (posm_of st pos)) (memo st)\<rparr>"

text \<open>
  \<open>run memoize sc n\<close> is \<^verbatim>\<open>this.run\<close> of the scanner \<open>sc\<close>, with \<open>n\<close> bounding the depth of
  nested calls (and the loop of \<^verbatim>\<open>rule_SKIP\<close>): \<open>None\<close> says that the bound was reached.
  With \<open>memoize = False\<close> every lookup in the inner map misses; everything else is the same.
\<close>

fun run ::
  "bool \<Rightarrow> Scanner \<Rightarrow> nat \<Rightarrow> key \<Rightarrow> nat \<Rightarrow> string \<Rightarrow> Packratter
     \<Rightarrow> (outcome \<times> Packratter) option"
where
  "run memoize sc 0 ruleOrPatt pos name st = None"
| "run memoize sc (Suc n) ruleOrPatt pos name st =
     (let st1 = (if map_of (memo st) pos = None then st\<lparr>memo := memo st @ [(pos, [])]\<rparr>
                 else st)
      in case (if memoize then map_of (posm_of st1 pos) ruleOrPatt else None) of
           Some LEFT_RECUR \<Rightarrow> Some (Inl (Error (''Left recursion on rule: '' @ name)), st1)
         | Some (Result r) \<Rightarrow> Some (Inr r, st1\<lparr>hits := hits st1 + 1\<rparr>)
         | None \<Rightarrow>
             (let st2 = posm_set st1 pos ruleOrPatt LEFT_RECUR;
                  st3 = st2\<lparr>misses := misses st2 + 1\<rparr>
              in andThen
                   (case ruleOrPatt of
                      KFun f \<Rightarrow> call n (run memoize sc n) sc f pos st3
                    | KUndef \<Rightarrow> Some (Inl (Error (''Rule missing: '' @ name)), st3)
                    | KPatt p \<Rightarrow> eat n (run memoize sc n) sc pos p st3)
                   (\<lambda>r st4. Some (Inr r, posm_set st4 pos ruleOrPatt (Result r)))))"

subsection \<open>\<^verbatim>\<open>Packratter.lastFailures\<close>, lines 215-235\<close>

text \<open>\<^verbatim>\<open>''+ruleOrPatt\<close> for the keys that are not functions.\<close>

fun key_toString :: "key \<Rightarrow> string" where
  "key_toString (KPatt (PStr p)) = p"
| "key_toString (KPatt (PRe RE)) = ''/'' @ source RE @ ''/'' @ flags RE"
| "key_toString KUndef = ''undefined''"
| "key_toString (KFun f) = ''function''"

fun isFunction :: "key \<Rightarrow> bool" where
  "isFunction (KFun f) = True"
| "isFunction k = False"

text \<open>The body of the inner loop, on the pair \<open>(maxPos, fails)\<close>.\<close>

fun lastFailures_step :: "key \<times> entry \<Rightarrow> nat \<times> string list \<Rightarrow> nat \<times> string list" where
  "lastFailures_step (ruleOrPatt, e) (maxPos, fails) =
     (if \<not> isFunction ruleOrPatt \<and> e \<noteq> LEFT_RECUR then
        (case e of
           Result (newPos, v) \<Rightarrow>
             (let fail = JSON_stringify (key_toString ruleOrPatt)
              in if v = FAIL then
                   (if newPos > maxPos then (newPos, [fail])
                    else if newPos = maxPos then (maxPos, fails @ [fail])
                    else (maxPos, fails))
                 else (maxPos, fails))
         | LEFT_RECUR \<Rightarrow> (maxPos, fails))
      else (maxPos, fails))"

definition lastFailures :: "Packratter \<Rightarrow> nat \<times> string list" where
  "lastFailures st =
     fold (\<lambda>(pos, posm) acc. fold lastFailures_step posm acc) (memo st) (0, [])"

subsection \<open>The constructor of \<^verbatim>\<open>Scanner\<close>, lines 279-297\<close>

definition new_Scanner ::
  "string list \<Rightarrow> string list \<Rightarrow> (nat \<Rightarrow> nat \<Rightarrow> proc) \<Rightarrow> (error + Scanner) option"
where
  "new_Scanner raw tokenTypeList rs =
     (case tokensInTemplate raw TOKEN_RE of
        None \<Rightarrow> None
      | Some (Inl e) \<Rightarrow> Some (Inl e)
      | Some (Inr ts) \<Rightarrow>
          Some (Inr \<lparr>keywords = set (filter (test (allRE IDENT_RE)) tokenTypeList),
                     otherTokenTypes =
                       set (filter (\<lambda>tt. \<not> test (allRE IDENT_RE) tt) tokenTypeList),
                     toks = ts,
                     rules = rs\<rparr>))"

section \<open>Notions used to state the properties\<close>

text \<open>All entries of the memo, in the order in which \<^verbatim>\<open>lastFailures\<close> visits them.\<close>

definition memo_entries :: "Packratter \<Rightarrow> (key \<times> entry) list" where
  "memo_entries st = concat (map snd (memo st))"

text \<open>
  The position of a memo entry that \<^verbatim>\<open>lastFailures\<close> counts as a failure: a result whose
  value is \<^verbatim>\<open>FAIL\<close>, under a key that is not a function.
\<close>

fun failPos :: "key \<times> entry \<Rightarrow> nat option" where
  "failPos (k, Result (newPos, v)) = (if \<not> isFunction k \<and> v = FAIL then Some newPos else None)"
| "failPos (k, LEFT_RECUR) = None"

definition failName :: "key \<times> entry \<Rightarrow> string" where
  "failName x = JSON_stringify (key_toString (fst x))"

text \<open>The entry that the memo holds for a position and a key.\<close>

definition lookup :: "Packratter \<Rightarrow> nat \<Rightarrow> key \<Rightarrow> entry option" where
  "lookup st pos k = map_of (posm_of st pos) k"

text \<open>
  What \<^verbatim>\<open>run\<close> stores for \<^verbatim>\<open>rule_COMMENT\<close> is the result of \<^verbatim>\<open>rule_COMMENT\<close>. This holds of a
  new \<^verbatim>\<open>Packratter\<close> and is kept by every call of \<^verbatim>\<open>run\<close> (\<open>run_memo_ok\<close> below).
\<close>

definition memo_ok :: "Scanner \<Rightarrow> Packratter \<Rightarrow> bool" where
  "memo_ok sc st =
     (\<forall>pos e. lookup st pos (KFun F_COMMENT) = Some e \<longrightarrow> e = Result (rule_COMMENT sc pos))"

text \<open>The element at index \<open>i\<close> is a token whose text is white space or a line comment.\<close>

definition skippable :: "Scanner \<Rightarrow> nat \<Rightarrow> bool" where
  "skippable sc i =
     (i < length (toks sc) \<and>
      (case toks sc ! i of
         Tok token \<Rightarrow> test (allRE SPACE_RE) (tok_text token)
                       \<or> test (allRE LINE_COMMENT_RE) (tok_text token)
       | Hole h \<Rightarrow> False))"

text \<open>The pattern of \<open>RE\<close> matches the whole of \<open>s\<close>.\<close>

definition fullMatch :: "RegExp \<Rightarrow> string \<Rightarrow> bool" where
  "fullMatch RE s = ([] \<in> set (ends (ignoreCase RE) (length s) (pattern RE) s))"

text \<open>The text of the token at index \<open>i\<close>, if there is a token.\<close>

definition tokenAt :: "Scanner \<Rightarrow> nat \<Rightarrow> string option" where
  "tokenAt sc i =
     (if i < length (toks sc) then
        (case toks sc ! i of Tok token \<Rightarrow> Some (tok_text token) | Hole h \<Rightarrow> None)
      else None)"

fun accepts :: "patt \<Rightarrow> string \<Rightarrow> bool" where
  "accepts (PStr p) txt = (txt = p)"
| "accepts (PRe RE) txt = fullMatch RE txt"

text \<open>
  The first steps of \<^verbatim>\<open>run\<close> on the state: \<open>install\<close> adds the empty inner map of a position
  that has none, \<open>enter\<close> stores the probe \<^verbatim>\<open>LEFT_RECUR\<close> and counts the miss.
\<close>

definition install :: "Packratter \<Rightarrow> nat \<Rightarrow> Packratter" where
  "install st pos =
     (if map_of (memo st) pos = None then st\<lparr>memo := memo st @ [(pos, [])]\<rparr> else st)"

definition enter :: "Packratter \<Rightarrow> nat \<Rightarrow> key \<Rightarrow> Packratter" where
  "enter st pos k =
     (let st2 = posm_set (install st pos) pos k LEFT_RECUR in st2\<lparr>misses := misses st2 + 1\<rparr>)"

text \<open>A computation keeps an invariant of the state, whatever it returns or throws.\<close>

definition preserves ::
  "(Packratter \<Rightarrow> bool) \<Rightarrow> (Packratter \<Rightarrow> ('a \<times> Packratter) option) \<Rightarrow> bool"
where
  "preserves I f = (\<forall>st x st'. I st \<longrightarrow> f st = Some (x, st') \<longrightarrow> I st')"

text \<open>The functions that are methods of \<^verbatim>\<open>Scanner\<close>, as opposed to rules of a grammar.\<close>

fun is_method :: "fnid \<Rightarrow> bool" where
  "is_method (F_rule u) = False"
| "is_method f = True"

text \<open>
  Notions for comparing runs. \<open>le_runner runf runf'\<close>: whatever \<open>runf\<close> returns, \<open>runf'\<close>
  returns too. \<open>good sc k pos r\<close>: the variant of \<^verbatim>\<open>run\<close> that never consults the memo
  returns the result \<open>r\<close> for the key \<open>k\<close> at \<open>pos\<close>, from every state and under every name.
  \<open>memo_sound\<close>: every result that the memo holds is such a result.
\<close>

definition le_runner :: "runner \<Rightarrow> runner \<Rightarrow> bool" where
  "le_runner runf runf' =
     (\<forall>k pos name st x. runf k pos name st = Some x \<longrightarrow> runf' k pos name st = Some x)"

definition good :: "Scanner \<Rightarrow> key \<Rightarrow> nat \<Rightarrow> result \<Rightarrow> bool" where
  "good sc k pos r =
     (\<forall>name st. \<exists>m st'. run False sc m k pos name st = Some (Inr r, st'))"

definition memo_sound :: "Scanner \<Rightarrow> Packratter \<Rightarrow> bool" where
  "memo_sound sc st = (\<forall>pos k r. lookup st pos k = Some (Result r) \<longrightarrow> good sc k pos r)"

text \<open>The outcome is the error that \<^verbatim>\<open>run\<close> throws when it finds \<^verbatim>\<open>LEFT_RECUR\<close> in the memo.\<close>

definition leftRecursion :: "outcome \<Rightarrow> bool" where
  "leftRecursion x =
     (case x of
        Inl (Error msg) \<Rightarrow> take (length ''Left recursion on rule: '') msg = ''Left recursion on rule: ''
      | _ \<Rightarrow> False)"

text \<open>
  \<open>sound_runner\<close>: from a sound memo, what the runner returns (the error of left recursion
  apart) the run without memo returns too, from every state, and a result leaves the memo
  sound.
\<close>

definition sound_runner :: "Scanner \<Rightarrow> runner \<Rightarrow> bool" where
  "sound_runner sc runT =
     (\<forall>k pos name st x st'. memo_sound sc st \<longrightarrow> runT k pos name st = Some (x, st')
        \<longrightarrow> \<not> leftRecursion x
        \<longrightarrow> (\<forall>st0. \<exists>m s. run False sc m k pos name st0 = Some (x, s))
            \<and> (\<forall>r. x = Inr r \<longrightarrow> memo_sound sc st'))"

text \<open>
  \<open>stateless\<close>: what a runner returns, apart from the state, does not depend on the state.
  \<open>starved sc m (pos, k)\<close>: the run without memo of \<open>k\<close> at \<open>pos\<close> does not return within
  the budget \<open>m\<close>. \<open>in_progress sc L st\<close>: the memo is sound and its probes \<^verbatim>\<open>LEFT_RECUR\<close> are
  among the calls \<open>L\<close>.
\<close>

definition stateless :: "runner \<Rightarrow> bool" where
  "stateless runf =
     (\<forall>k pos name st st'.
        map_option fst (runf k pos name st) = map_option fst (runf k pos name st'))"

definition starved :: "Scanner \<Rightarrow> nat \<Rightarrow> nat \<times> key \<Rightarrow> bool" where
  "starved sc m x = (\<forall>name st. run False sc m (snd x) (fst x) name st = None)"

definition in_progress :: "Scanner \<Rightarrow> (nat \<times> key) set \<Rightarrow> Packratter \<Rightarrow> bool" where
  "in_progress sc L st =
     (memo_sound sc st \<and> (\<forall>pos k. lookup st pos k = Some LEFT_RECUR \<longrightarrow> (pos, k) \<in> L))"

text \<open>
  What \<^verbatim>\<open>run\<close> evaluates after a miss, between the store of the probe and the store of the
  result (lines 204-210).
\<close>

definition run_body :: "nat \<Rightarrow> runner \<Rightarrow> Scanner \<Rightarrow> key \<Rightarrow> nat \<Rightarrow> string \<Rightarrow> Packratter
     \<Rightarrow> (outcome \<times> Packratter) option" where
  "run_body n runf sc k pos nm st =
     (case k of
        KFun f \<Rightarrow> call n runf sc f pos st
      | KUndef \<Rightarrow> Some (Inl (Error (''Rule missing: '' @ nm)), st)
      | KPatt p \<Rightarrow> eat n runf sc pos p st)"

text \<open>
  Relations between two runs. \<open>rel_out R E a b\<close>: whatever \<open>a\<close> returns, \<open>b\<close> returns with
  the same outcome, and the two final states are related by \<open>R\<close> after a result and by
  \<open>E e\<close> after the error \<open>e\<close>. \<open>rel_runner R E f g\<close>: from states related by \<open>R\<close>, every call
  of the runners \<open>f\<close> and \<open>g\<close> is so related.
\<close>

definition rel_out ::
  "(Packratter \<Rightarrow> Packratter \<Rightarrow> bool) \<Rightarrow> (error \<Rightarrow> Packratter \<Rightarrow> Packratter \<Rightarrow> bool)
     \<Rightarrow> (outcome \<times> Packratter) option \<Rightarrow> (outcome \<times> Packratter) option \<Rightarrow> bool"
where
  "rel_out R E a b =
     (\<forall>x s. a = Some (x, s) \<longrightarrow>
        (\<exists>t. b = Some (x, t) \<and> (case x of Inr r \<Rightarrow> R s t | Inl e \<Rightarrow> E e s t)))"

definition rel_runner ::
  "(Packratter \<Rightarrow> Packratter \<Rightarrow> bool) \<Rightarrow> (error \<Rightarrow> Packratter \<Rightarrow> Packratter \<Rightarrow> bool)
     \<Rightarrow> runner \<Rightarrow> runner \<Rightarrow> bool"
where
  "rel_runner R E f g =
     (\<forall>k pos name s t. R s t \<longrightarrow> rel_out R E (f k pos name s) (g k pos name t))"

text \<open>
  The memo as a list. \<open>shape\<close>: the positions with the keys of each, in the order of
  insertion. \<open>distinct_memo\<close>: no position and no key of a position occurs twice, as in a
  \<^verbatim>\<open>Map\<close>.
\<close>

definition shape :: "Packratter \<Rightarrow> (nat \<times> key list) list" where
  "shape st = map (\<lambda>x. (fst x, map fst (snd x))) (memo st)"

definition distinct_memo :: "Packratter \<Rightarrow> bool" where
  "distinct_memo st =
     (distinct (map fst (memo st)) \<and> (\<forall>x \<in> set (memo st). distinct (map fst (snd x))))"

text \<open>
  \<open>over s0 s t\<close>: the memo of \<open>s\<close> holds the entries of \<open>t\<close> and, elsewhere, those of \<open>s0\<close>;
  when \<open>s0\<close> has an entry wherever \<open>t\<close> has one, \<open>s\<close> has the shape of \<open>s0\<close>. \<open>closed sc st\<close>:
  for every result in the memo, the entries that the run without memo of that key and
  position stores, starting from a new state, are at places where the memo holds results.
\<close>

definition over :: "Packratter \<Rightarrow> Packratter \<Rightarrow> Packratter \<Rightarrow> bool" where
  "over s0 s t =
     ((\<forall>p k. lookup s p k = (case lookup t p k of None \<Rightarrow> lookup s0 p k | Some e \<Rightarrow> Some e))
      \<and> ((\<forall>p k. lookup t p k \<noteq> None \<longrightarrow> lookup s0 p k \<noteq> None) \<longrightarrow> shape s = shape s0))"

definition closed :: "Scanner \<Rightarrow> Packratter \<Rightarrow> bool" where
  "closed sc st =
     (\<forall>pos k r. lookup st pos k = Some (Result r) \<longrightarrow>
        (\<forall>n nm x t p k' e. run False sc n k pos nm new_Packratter = Some (x, t)
            \<longrightarrow> lookup t p k' = Some e \<longrightarrow> (\<exists>r'. lookup st p k' = Some (Result r'))))"

text \<open>
  \<open>lockstep sc L s t\<close> relates the state \<open>s\<close> of the run without memo to the state \<open>t\<close> of
  the memoizing run at the same call: the same memo, at least as many misses in \<open>s\<close> as hits
  and misses in \<open>t\<close>, and the invariants of \<open>t\<close>. \<open>same_memo\<close> is what remains of it after an
  error.
\<close>

definition lockstep :: "Scanner \<Rightarrow> (nat \<times> key) set \<Rightarrow> Packratter \<Rightarrow> Packratter \<Rightarrow> bool" where
  "lockstep sc L s t =
     (memo s = memo t \<and> hits t + misses t \<le> misses s
      \<and> in_progress sc L t \<and> closed sc t \<and> distinct_memo t)"

definition same_memo :: "error \<Rightarrow> Packratter \<Rightarrow> Packratter \<Rightarrow> bool" where
  "same_memo e s t = (memo s = memo t \<and> hits t + misses t \<le> misses s)"

text \<open>
  The first of the regular expressions \<open>REs\<close> that matches \<open>str\<close> at index \<open>i\<close>, with the end
  of its match.
\<close>

fun firstMatch :: "RegExp list \<Rightarrow> string \<Rightarrow> nat \<Rightarrow> nat option" where
  "firstMatch [] str i = None"
| "firstMatch (RE # REs) str i =
     (case matchAt RE str i of Some e \<Rightarrow> Some e | None \<Rightarrow> firstMatch REs str i)"

section \<open>Examples\<close>

text \<open>The regular expression \<^verbatim>\<open>/a/i\<close>.\<close>

definition RE_a_i :: RegExp where
  "RE_a_i = \<lparr>source = ''a'', pattern = RChr CHR ''a'', flags = ''i''\<rparr>"

definition no_rules :: "nat \<Rightarrow> nat \<Rightarrow> proc" where
  "no_rules u pos = Return (pos, FAIL)"

text \<open>The scanner of the template with the one segment \<^verbatim>\<open> 1\<close> (a space and a number).\<close>

definition scanner_space_one :: Scanner where
  "scanner_space_one =
     \<lparr>keywords = {}, otherTokenTypes = {},
      toks = [Tok (Token '' '' (Pos 0 0 1)), Tok (Token ''1'' (Pos 0 1 2))],
      rules = no_rules\<rparr>"

text \<open>
  The grammar \<^verbatim>\<open>A ::= A "x" / "x";\<close> of scenario S5 of the spec, as rule procedure 0: it
  runs \<^verbatim>\<open>A\<close> at its own position first.
\<close>

definition rule_A :: "nat \<Rightarrow> proc" where
  "rule_A pos =
     Run (KFun (F_rule 0)) pos ''A''
       (\<lambda>a. if snd a \<noteq> FAIL then
               Run (KPatt (PStr ''x'')) (fst a) (JSON_stringify ''x'')
                 (\<lambda>x. if snd x \<noteq> FAIL then Return (fst x, List [snd a, snd x])
                      else Run (KPatt (PStr ''x'')) pos (JSON_stringify ''x'') Return)
             else Run (KPatt (PStr ''x'')) pos (JSON_stringify ''x'') Return)"

text \<open>The scanner of the template with the one segment \<^verbatim>\<open>x x\<close>, with that grammar.\<close>

definition scanner_x_x :: Scanner where
  "scanner_x_x =
     \<lparr>keywords = {}, otherTokenTypes = {},
      toks = [Tok (Token ''x'' (Pos 0 0 1)), Tok (Token '' '' (Pos 0 1 2)),
              Tok (Token ''x'' (Pos 0 2 3))],
      rules = (\<lambda>u. rule_A)\<rparr>"

text \<open>The state in which rule \<^verbatim>\<open>A\<close> has been entered at position 0.\<close>

definition in_rule_A :: Packratter where
  "in_rule_A = \<lparr>memo = [(0, [(KFun (F_rule 0), LEFT_RECUR)])], hits = 0, misses = 1\<rparr>"

text \<open>
  The states of a new \<^verbatim>\<open>Packratter\<close> over \<open>scanner_space_one\<close> after
  \<^verbatim>\<open>run(this.rule_IDENT, 0, 'IDENT')\<close> and after \<^verbatim>\<open>run("a", 0, '"a"')\<close>.
\<close>

definition after_IDENT :: Packratter where
  "after_IDENT =
     \<lparr>memo = [(0, [(KFun F_IDENT, Result (1, FAIL))]),
              (1, [(KFun F_COMMENT, Result (1, FAIL))])],
      hits = 0, misses = 2\<rparr>"

definition after_eat_a :: Packratter where
  "after_eat_a =
     \<lparr>memo = [(0, [(KPatt (PStr ''a''), Result (1, FAIL))]),
              (1, [(KFun F_COMMENT, Result (1, FAIL))])],
      hits = 0, misses = 2\<rparr>"

text \<open>
  The grammar \<^verbatim>\<open>B ::= "x" B / "x";\<close> as rule procedure 0, the scanner of the template with
  the one segment \<^verbatim>\<open>x x\<close> with that grammar, and the memo that a parse of \<^verbatim>\<open>B\<close> at position 0
  leaves.
\<close>

definition rule_B :: "nat \<Rightarrow> proc" where
  "rule_B pos =
     Run (KPatt (PStr ''x'')) pos (JSON_stringify ''x'')
       (\<lambda>x. if snd x \<noteq> FAIL then
               Run (KFun (F_rule 0)) (fst x) ''B''
                 (\<lambda>b. if snd b \<noteq> FAIL then Return (fst b, List [snd x, snd b])
                      else Run (KPatt (PStr ''x'')) pos (JSON_stringify ''x'') Return)
             else Run (KPatt (PStr ''x'')) pos (JSON_stringify ''x'') Return)"

definition scanner_B :: Scanner where
  "scanner_B =
     \<lparr>keywords = {}, otherTokenTypes = {},
      toks = [Tok (Token ''x'' (Pos 0 0 1)), Tok (Token '' '' (Pos 0 1 2)),
              Tok (Token ''x'' (Pos 0 2 3))],
      rules = (\<lambda>u. rule_B)\<rparr>"

definition memo_B :: "(nat \<times> (key \<times> entry) list) list" where
  "memo_B =
     [(0, [(KFun (F_rule 0), Result (3, List [Str ''x'', Str ''x''])),
           (KPatt (PStr ''x''), Result (1, Str ''x'')),
           (KFun F_COMMENT, Result (0, FAIL))]),
      (1, [(KFun (F_rule 0), Result (3, Str ''x'')),
           (KPatt (PStr ''x''), Result (3, Str ''x''))]),
      (2, [(KFun F_COMMENT, Result (2, FAIL))]),
      (3, [(KFun (F_rule 0), Result (3, FAIL)),
           (KPatt (PStr ''x''), Result (3, FAIL))])]"

text \<open>
  The grammar \<^verbatim>\<open>D ::= "x" C;\<close> in which no rule \<^verbatim>\<open>C\<close> is defined, as rule procedure 0:
  \<^verbatim>\<open>this.rule_C\<close> is \<^verbatim>\<open>undefined\<close>. The scanner of the template with the one segment
  \<^verbatim>\<open>x x\<close> with that grammar.
\<close>

definition rule_D :: "nat \<Rightarrow> proc" where
  "rule_D pos =
     Run (KPatt (PStr ''x'')) pos (JSON_stringify ''x'')
       (\<lambda>x. if snd x \<noteq> FAIL
            then Run KUndef (fst x) ''C'' (\<lambda>c. Return (fst c, List [snd x, snd c]))
            else Return (pos, FAIL))"

definition scanner_D :: Scanner where
  "scanner_D =
     \<lparr>keywords = {}, otherTokenTypes = {},
      toks = [Tok (Token ''x'' (Pos 0 0 1)), Tok (Token '' '' (Pos 0 1 2)),
              Tok (Token ''x'' (Pos 0 2 3))],
      rules = (\<lambda>u. rule_D)\<rparr>"

section \<open>Properties of the lexer\<close>

subsection \<open>The matcher consumes what it matches\<close>

lemma ends_length: "r \<in> set (ends ic L p s) \<Longrightarrow> length r \<le> length s"
proof (induction ic L p s arbitrary: r rule: ends.induct)
  case (3 ic L a b s)
  then obtain m where m: "m \<in> set (ends ic L a s)" "r \<in> set (ends ic L b m)" by auto
  from "3.IH"(1)[OF m(1)] "3.IH"(2)[OF m(1) m(2)] show ?case by simp
next
  case (5 ic L a s)
  show ?case
  proof (cases "r = s")
    case False
    with "5.prems" obtain m where m: "m \<in> set (ends ic L a s)" "length m < length s"
      "r \<in> set (ends ic L (RStar a) m)"
      by (subst (asm) ends.simps(5)) (auto split: if_splits)
    from "5.IH"(2)[OF m(1) m(2) m(3)] m(2) show ?thesis by simp
  qed simp
qed (auto split: list.splits if_splits)

lemma ends_progress:
  "\<not> nullable p \<Longrightarrow> r \<in> set (ends ic L p s) \<Longrightarrow> length r < length s"
proof (induction ic L p s arbitrary: r rule: ends.induct)
  case (3 ic L a b s)
  then obtain m where m: "m \<in> set (ends ic L a s)" "r \<in> set (ends ic L b m)" by auto
  have "length m \<le> length s" "length r \<le> length m" using m ends_length by blast+
  moreover have "\<not> nullable a \<or> \<not> nullable b" using "3.prems" by simp
  moreover have "\<not> nullable a \<Longrightarrow> length m < length s" using "3.IH"(1) m(1) by blast
  moreover have "\<not> nullable b \<Longrightarrow> length r < length m" using "3.IH"(2) m by blast
  ultimately show ?case by linarith
next
  case (5 ic L a s)
  then show ?case by simp
qed (auto split: list.splits if_splits)

lemma matchAt_bounds:
  assumes "matchAt RE str i = Some e" "i \<le> length str"
  shows "i \<le> e \<and> e \<le> length str \<and> (\<not> nullable (pattern RE) \<longrightarrow> i < e)"
proof -
  from assms(1) obtain rest rs where
    r: "ends (ignoreCase RE) (length str) (pattern RE) (drop i str) = rest # rs"
    and e: "e = length str - length rest"
    by (auto simp: matchAt_def split: list.splits)
  have mem: "rest \<in> set (ends (ignoreCase RE) (length str) (pattern RE) (drop i str))"
    using r by simp
  have le: "length rest \<le> length str - i" using ends_length[OF mem] by simp
  have "\<not> nullable (pattern RE) \<Longrightarrow> length rest < length str - i"
    using ends_progress[OF _ mem] by simp
  with le e assms(2) show ?thesis by auto
qed

lemma exec_sticky:
  assumes "sticky RE" "i \<le> length str"
  shows "exec RE i str =
           (case matchAt RE str i of
              None \<Rightarrow> (None, 0)
            | Some e \<Rightarrow> (Some (mkArray RE str i e), e))"
  using assms by (simp add: exec_def split: option.splits)

lemma tokensInSegment_loop_total:
  assumes st: "sticky RE" and grp: "pattern RE = RGrp r" and nn: "\<not> nullable r"
    and all: "\<forall>j. i \<le> j \<and> j < length segment \<longrightarrow> matchAt RE segment j \<noteq> None"
    and le: "i \<le> length segment"
  shows "\<exists>ts. tokensInSegment_loop segNum segment RE i i acc = Some (Inr (acc @ ts))
             \<and> concat (map tok_text ts) = drop i segment \<and> contiguous segNum i ts"
  using all le
proof (induction "length segment - i" arbitrary: i acc rule: less_induct)
  case less
  show ?case
  proof (cases "i < length segment")
    case False
    then show ?thesis using less.prems
      by (subst tokensInSegment_loop.simps) (auto intro: exI[of _ "[]"])
  next
    case True
    then obtain e where e: "matchAt RE segment i = Some e" using less.prems by auto
    have b: "i < e" "e \<le> length segment"
      using matchAt_bounds[OF e] less.prems(2) grp nn by auto
    let ?txt = "take (e - i) (drop i segment)"
    let ?tok = "Token ?txt (Pos segNum i e)"
    have len: "length ?txt = e - i" using b by simp
    have ex: "exec RE i segment = (Some (mkArray RE segment i e), e)"
      using exec_sticky[OF st less.prems(2)] e by simp
    have a1: "arr1 (mkArray RE segment i e) = Some ?txt"
      by (simp add: mkArray_def grp Let_def)
    have step: "tokensInSegment_loop segNum segment RE i i acc
                  = tokensInSegment_loop segNum segment RE e e (acc @ [?tok])"
      using True b len
      by (subst tokensInSegment_loop.simps) (simp add: ex a1 Let_def)
    have "length segment - e < length segment - i" using b True by simp
    moreover have "\<forall>j. e \<le> j \<and> j < length segment \<longrightarrow> matchAt RE segment j \<noteq> None"
      using less.prems(1) b by auto
    ultimately obtain ts where ts:
      "tokensInSegment_loop segNum segment RE e e (acc @ [?tok]) = Some (Inr ((acc @ [?tok]) @ ts))"
      "concat (map tok_text ts) = drop e segment" "contiguous segNum e ts"
      using less.hyps[of e "acc @ [?tok]"] b by blast
    have "?txt @ drop e segment = drop i segment"
    proof -
      have "drop e segment = drop (e - i) (drop i segment)" using b by simp
      then show ?thesis by (simp only: append_take_drop_id)
    qed
    then have "concat (map tok_text (?tok # ts)) = drop i segment" using ts(2) by simp
    moreover have "contiguous segNum i (?tok # ts)" using ts(3) len b by simp
    ultimately show ?thesis using step ts(1) by (intro exI[of _ "?tok # ts"]) simp
  qed
qed

lemma TOKEN_RE_pattern:
  "\<exists>r. pattern TOKEN_RE = RGrp r \<and> \<not> nullable r"
  by (simp add: TOKEN_RE_def captureRE_def anyRE_def RegExp_new_def SPACE_RE_def NUMBER_RE_def
      STRING_RE_def IDENT_RE_def SINGLE_OP_def MULTI_OP_def LINE_COMMENT_RE_def RPlus_def
      ROpt_def RChr_def)

lemma TOKEN_RE_flags: "flags TOKEN_RE = []"
  by (simp add: TOKEN_RE_def captureRE_def anyRE_def RegExp_new_def)

text \<open>
  C5. A segment (of 8-bit characters) in which the token regular expression matches at
  every offset is tokenized without an error: \<^verbatim>\<open>tokensInSegment\<close> returns a token list,
  the texts of the tokens concatenate to the segment, and every token starts where the one
  before it ends (the first at offset 0).
\<close>

theorem tokensInSegment_total:
  assumes "\<forall>i < length segment. matchAt TOKEN_RE segment i \<noteq> None"
  shows "\<exists>ts. tokensInSegment segNum segment TOKEN_RE = Some (Inr ts)
             \<and> concat (map tok_text ts) = segment \<and> contiguous segNum 0 ts"
proof -
  let ?RE = "RegExp_new (source TOKEN_RE) (pattern TOKEN_RE) (flags TOKEN_RE @ ''y'')"
  have s: "stickyRE TOKEN_RE = Inr ?RE"
    by (simp add: stickyRE_def sticky_def TOKEN_RE_flags)
  obtain r where r: "pattern TOKEN_RE = RGrp r" "\<not> nullable r"
    using TOKEN_RE_pattern by blast
  have st: "sticky ?RE" by (simp add: sticky_def RegExp_new_def)
  have p: "pattern ?RE = RGrp r" using r by (simp add: RegExp_new_def)
  have m: "matchAt ?RE segment j = matchAt TOKEN_RE segment j" for j
    by (simp add: matchAt_def RegExp_new_def ignoreCase_def TOKEN_RE_flags)
  have "\<forall>j. 0 \<le> j \<and> j < length segment \<longrightarrow> matchAt ?RE segment j \<noteq> None"
    using assms m by simp
  from tokensInSegment_loop_total[OF st p r(2) this, of segNum "[]"]
  show ?thesis by (simp add: tokensInSegment_def s)
qed

theorem tokensInSegment_total_witness:
  "\<exists>ts. tokensInSegment 0 ''a b'' TOKEN_RE = Some (Inr ts)
        \<and> concat (map tok_text ts) = ''a b'' \<and> contiguous 0 0 ts"
proof -
  have h: "\<forall>i < length ''a b''. matchAt TOKEN_RE ''a b'' i \<noteq> None"
    by code_simp
  from tokensInSegment_total[OF h, of 0] show ?thesis .
qed

text \<open>An operator character and a bracket are two tokens.\<close>

lemma tokens_plus_bracket:
  "tokensInSegment 0 ''+['' TOKEN_RE
     = Some (Inr [Token ''+'' (Pos 0 0 1), Token ''['' (Pos 0 1 2)])"
  by code_simp

subsection \<open>Lexical errors\<close>

lemma tokensInSegment_loop_failure:
  assumes "sticky RE" "i < length segment" "matchAt RE segment i = None"
  shows "tokensInSegment_loop segNum segment RE i x acc
           = Some (Inl (SyntaxError (''Unexpected: ''
                @ Token_toString (Token segment (Pos segNum 0 (length segment))))))"
  using assms
  by (subst tokensInSegment_loop.simps) (simp add: exec_sticky Let_def)

text \<open>
  C9. The segment \<^verbatim>\<open>a !\<close> has the tokens \<^verbatim>\<open>a\<close> and a space, and at offset 2 the token regular
  expression fails on \<^verbatim>\<open>!\<close>. A syntax error is raised and no token list is returned, but
  the failed \<^verbatim>\<open>exec\<close> has set \<^verbatim>\<open>lastIndex\<close> back to 0, so the bad token of the message is
  the whole segment at \<^verbatim>\<open>#0@0:3\<close> and not the remaining slice \<^verbatim>\<open>!\<close> at \<^verbatim>\<open>#0@2:3\<close>.
\<close>

theorem lexical_error_reports_whole_segment:
  "tokensInSegment 0 ''a !'' TOKEN_RE
     = Some (Inl (SyntaxError (''Unexpected: '' @ Token_toString (Token ''a !'' (Pos 0 0 3)))))
   \<and> Token_toString (Token ''a !'' (Pos 0 0 3)) = [dquote] @ ''a !'' @ [dquote] @ '' at #0@0:3''
   \<and> tokensInSegment 0 ''a !'' TOKEN_RE
     \<noteq> Some (Inl (SyntaxError (''Unexpected: '' @ Token_toString (Token ''!'' (Pos 0 2 3)))))"
  by code_simp

subsection \<open>Templates\<close>

lemma tokensInTemplate_loop_returns:
  assumes "k + length tss = length template"
    and "\<forall>j < length tss. tokensInSegment (k + j) (template ! (k + j)) RE = Some (Inr (tss ! j))"
  shows "tokensInTemplate_loop template RE k acc
           = Some (Inr (acc @ interleave (length template - 1) k tss))"
  using assms
proof (induction tss arbitrary: k acc)
  case Nil
  then show ?case by (subst tokensInTemplate_loop.simps) simp
next
  case (Cons ts tss)
  have k: "k < length template" using Cons.prems(1) by simp
  have seg: "tokensInSegment k (template ! k) RE = Some (Inr ts)"
    using Cons.prems(2)[rule_format, of 0] by simp
  have rest: "\<forall>j < length tss. tokensInSegment (Suc k + j) (template ! (Suc k + j)) RE
                = Some (Inr (tss ! j))"
    using Cons.prems(2) by (auto dest: spec[of _ "Suc j" for j])
  have len: "Suc k + length tss = length template" using Cons.prems(1) by simp
  have c: "(int k < int (length template) - 1) = (k < length template - 1)" using k by auto
  show ?case
    using k by (subst tokensInTemplate_loop.simps) (simp add: seg c Cons.IH[OF len rest])
qed

lemma tokensInTemplate_loop_result:
  assumes "tokensInTemplate_loop template RE k acc = Some (Inr stream)" "k \<le> length template"
  shows "\<exists>tss. k + length tss = length template
           \<and> (\<forall>j < length tss. tokensInSegment (k + j) (template ! (k + j)) RE
                  = Some (Inr (tss ! j)))
           \<and> stream = acc @ interleave (length template - 1) k tss"
  using assms
proof (induction template RE k acc rule: tokensInTemplate_loop.induct)
  case (1 template RE segnum result)
  show ?case
  proof (cases "segnum < length template")
    case False
    then have "segnum = length template" using "1.prems"(2) by simp
    moreover have "stream = result"
      using "1.prems"(1) False by (subst (asm) tokensInTemplate_loop.simps) simp
    ultimately show ?thesis by (intro exI[of _ "[]"]) simp
  next
    case True
    then have c: "int segnum \<le> int (length template) - 1" by simp
    let ?acc = "\<lambda>ts. if int segnum < int (length template) - 1
                then (result @ map Tok ts) @ [Hole segnum] else result @ map Tok ts"
    from "1.prems"(1) c obtain ts where
      ts: "tokensInSegment segnum (template ! segnum) RE = Some (Inr ts)"
      and r: "tokensInTemplate_loop template RE (Suc segnum) (?acc ts) = Some (Inr stream)"
      by (subst (asm) tokensInTemplate_loop.simps) (auto split: option.splits sum.splits)
    from "1.IH"[OF c ts refl r] True obtain tss where tss:
      "Suc segnum + length tss = length template"
      "\<forall>j < length tss. tokensInSegment (Suc segnum + j) (template ! (Suc segnum + j)) RE
          = Some (Inr (tss ! j))"
      "stream = ?acc ts @ interleave (length template - 1) (Suc segnum) tss"
      by auto
    have c2: "(int segnum < int (length template) - 1) = (segnum < length template - 1)"
      using True by auto
    have "\<forall>j < length (ts # tss). tokensInSegment (segnum + j) (template ! (segnum + j)) RE
            = Some (Inr ((ts # tss) ! j))"
    proof (intro allI impI)
      fix j assume "j < length (ts # tss)"
      then show "tokensInSegment (segnum + j) (template ! (segnum + j)) RE
                   = Some (Inr ((ts # tss) ! j))"
        using ts tss(2) by (cases j) auto
    qed
    moreover have "stream = result @ interleave (length template - 1) segnum (ts # tss)"
      using tss(3) c2 by simp
    ultimately show ?thesis using tss(1) by (intro exI[of _ "ts # tss"]) simp
  qed
qed

lemma length_interleave:
  "k + length tss = Suc n \<Longrightarrow>
   length (interleave n k tss) = sum_list (map length tss) + (Suc n - k - 1)"
  by (induction tss arbitrary: k) auto

lemma holes_interleave:
  "k + length tss = Suc n \<Longrightarrow> filter isHole (interleave n k tss) = map Hole [k..<n]"
proof (induction tss arbitrary: k)
  case Nil
  then show ?case by simp
next
  case (Cons ts tss)
  have f: "filter isHole (map Tok ts) = []" by (induction ts) auto
  have k: "k \<le> n" using Cons.prems by simp
  show ?case
  proof (cases "k < n")
    case True
    then have "[k..<n] = k # [Suc k..<n]" by (simp add: upt_conv_Cons)
    then show ?thesis using Cons.IH[of "Suc k"] Cons.prems True by (simp add: f)
  next
    case False
    then have "k = n" using k by simp
    then have "tss = []" using Cons.prems by simp
    then show ?thesis using \<open>k = n\<close> by (simp add: f)
  qed
qed

lemma nth_interleave_hole:
  "j < length tss \<Longrightarrow> k + j < n \<Longrightarrow>
   interleave n k tss ! (sum_list (map length (take (Suc j) tss)) + j) = Hole (k + j)"
proof (induction tss arbitrary: k j)
  case Nil
  then show ?case by simp
next
  case (Cons ts tss)
  show ?case
  proof (cases j)
    case 0
    then show ?thesis using Cons.prems by (simp add: nth_append)
  next
    case (Suc j')
    have k: "k < n" using Cons.prems Suc by simp
    have "interleave n (Suc k) tss ! (sum_list (map length (take (Suc j') tss)) + j')
            = Hole (Suc k + j')"
      using Cons.IH[of j' "Suc k"] Cons.prems Suc by simp
    then show ?thesis using Suc k by (simp add: nth_append)
  qed
qed

text \<open>
  What \<^verbatim>\<open>tokensInTemplate\<close> returns is the interleaving of token lists that
  \<^verbatim>\<open>tokensInSegment\<close> returned for the segments.
\<close>

lemma tokensInTemplate_result:
  assumes "length template = Suc n" and "tokensInTemplate template RE = Some (Inr stream)"
  shows "\<exists>tss. length tss = Suc n
           \<and> (\<forall>k \<le> n. tokensInSegment k (template ! k) RE = Some (Inr (tss ! k)))
           \<and> stream = interleave n 0 tss"
proof -
  from tokensInTemplate_loop_result[OF assms(2)[unfolded tokensInTemplate_def]]
  obtain tss where tss: "length tss = length template"
    "\<forall>j < length tss. tokensInSegment j (template ! j) RE = Some (Inr (tss ! j))"
    "stream = interleave (length template - 1) 0 tss" by auto
  show ?thesis
    using tss assms(1) by (intro exI[of _ tss]) (auto simp: less_Suc_eq_le)
qed

text \<open>
  C4. For a template of \<open>n + 1\<close> segments whose segments are tokenized to the token lists
  \<open>tss\<close>, \<^verbatim>\<open>tokensInTemplate\<close> returns, and the stream it returns is the tokens of segment
  0, hole marker 0, the tokens of segment 1, hole marker 1, and so on up to the tokens of
  segment \<open>n\<close>. The stream holds exactly the \<open>n\<close> hole markers \<open>0, ..., n - 1\<close> in this
  order, the marker \<open>k\<close> stands right after the tokens of the segments \<open>0, ..., k\<close> and the
  markers before it, and the length of the stream is the number of tokens of all segments
  plus \<open>n\<close>.
\<close>

theorem tokensInTemplate_holes:
  assumes "length template = Suc n" and "length tss = Suc n"
    and "\<forall>k \<le> n. tokensInSegment k (template ! k) RE = Some (Inr (tss ! k))"
  shows "\<exists>stream. tokensInTemplate template RE = Some (Inr stream)
           \<and> stream = interleave n 0 tss
           \<and> filter isHole stream = map Hole [0..<n]
           \<and> (\<forall>k < n. stream ! (sum_list (map length (take (Suc k) tss)) + k) = Hole k)
           \<and> length stream = sum_list (map length tss) + n"
proof -
  have l: "0 + length tss = length template" using assms(1,2) by simp
  have h: "\<forall>j < length tss. tokensInSegment (0 + j) (template ! (0 + j)) RE
             = Some (Inr (tss ! j))"
    using assms(2,3) by simp
  have r: "tokensInTemplate template RE = Some (Inr (interleave n 0 tss))"
    using tokensInTemplate_loop_returns[OF l h, of "[]"] assms(1)
    by (simp add: tokensInTemplate_def)
  have l': "0 + length tss = Suc n" using assms(2) by simp
  have p: "\<forall>k < n. interleave n 0 tss ! (sum_list (map length (take (Suc k) tss)) + k) = Hole k"
    using nth_interleave_hole[of _ tss 0 n] assms(2) by simp
  show ?thesis
    using r holes_interleave[OF l'] length_interleave[OF l'] p by simp
qed

theorem tokensInTemplate_holes_witness:
  "tokensInTemplate [''a'', ''+ b'', ''c''] TOKEN_RE
     = Some (Inr [Tok (Token ''a'' (Pos 0 0 1)), Hole 0,
                  Tok (Token ''+'' (Pos 1 0 1)), Tok (Token '' '' (Pos 1 1 2)),
                  Tok (Token ''b'' (Pos 1 2 3)), Hole 1,
                  Tok (Token ''c'' (Pos 2 0 1))])
   \<and> filter isHole [Tok (Token ''a'' (Pos 0 0 1)), Hole 0,
                     Tok (Token ''+'' (Pos 1 0 1)), Tok (Token '' '' (Pos 1 1 2)),
                     Tok (Token ''b'' (Pos 1 2 3)), Hole 1,
                     Tok (Token ''c'' (Pos 2 0 1))] = [Hole 0, Hole 1]
   \<and> length [Tok (Token ''a'' (Pos 0 0 1)), Hole 0,
             Tok (Token ''+'' (Pos 1 0 1)), Tok (Token '' '' (Pos 1 1 2)),
             Tok (Token ''b'' (Pos 1 2 3)), Hole 1,
             Tok (Token ''c'' (Pos 2 0 1))] = (1 + 3 + 1) + 2"
proof -
  let ?tss = "[[Token ''a'' (Pos 0 0 1)],
               [Token ''+'' (Pos 1 0 1), Token '' '' (Pos 1 1 2), Token ''b'' (Pos 1 2 3)],
               [Token ''c'' (Pos 2 0 1)]]"
  have s0: "tokensInSegment 0 ''a'' TOKEN_RE = Some (Inr (?tss ! 0))" by code_simp
  have s1: "tokensInSegment 1 ''+ b'' TOKEN_RE = Some (Inr (?tss ! 1))" by code_simp
  have s2: "tokensInSegment 2 ''c'' TOKEN_RE = Some (Inr (?tss ! 2))" by code_simp
  have h: "\<forall>k \<le> 2. tokensInSegment k ([''a'', ''+ b'', ''c''] ! k) TOKEN_RE
             = Some (Inr (?tss ! k))"
  proof (intro allI impI)
    fix k :: nat assume "k \<le> 2"
    then consider "k = 0" | "k = 1" | "k = 2" by linarith
    then show "tokensInSegment k ([''a'', ''+ b'', ''c''] ! k) TOKEN_RE = Some (Inr (?tss ! k))"
      using s0 s1 s2 by cases simp_all
  qed
  have l1: "length [''a'', ''+ b'', ''c''] = Suc 2" by simp
  have l2: "length ?tss = Suc 2" by simp
  have i: "interleave 2 0 ?tss = [Tok (Token ''a'' (Pos 0 0 1)), Hole 0,
                  Tok (Token ''+'' (Pos 1 0 1)), Tok (Token '' '' (Pos 1 1 2)),
                  Tok (Token ''b'' (Pos 1 2 3)), Hole 1,
                  Tok (Token ''c'' (Pos 2 0 1))]"
    by simp
  from tokensInTemplate_holes[OF l1 l2 h] show ?thesis unfolding i by simp
qed

section \<open>Properties of the regular expression combinators\<close>

lemma searchFrom_None: "searchFrom RE str is = None \<longleftrightarrow> (\<forall>i \<in> set is. matchAt RE str i = None)"
  by (induction "is") (auto split: option.splits)

lemma matchAt_allRE:
  assumes "i \<le> length s"
  shows "matchAt (allRE RE) s i \<noteq> None \<longleftrightarrow> i = 0 \<and> fullMatch RE s"
proof -
  have ic: "ignoreCase (allRE RE) = ignoreCase RE"
    by (simp add: allRE_def RegExp_new_def ignoreCase_def)
  have p: "pattern (allRE RE) = RSeq RBol (RSeq (pattern RE) REol)"
    by (simp add: allRE_def RegExp_new_def)
  have e: "concat (map (ends ic L REol) xs) \<noteq> [] \<longleftrightarrow> [] \<in> set xs" for ic L xs
    by (induction xs) auto
  have l: "length s - i = length s \<longleftrightarrow> i = 0" using assms by auto
  have "ends (ignoreCase RE) (length s) (pattern (allRE RE)) (drop i s)
          = (if i = 0
             then concat (map (ends (ignoreCase RE) (length s) REol)
                              (ends (ignoreCase RE) (length s) (pattern RE) s))
             else [])"
    by (simp add: p l)
  then have "ends (ignoreCase RE) (length s) (pattern (allRE RE)) (drop i s) \<noteq> []
               \<longleftrightarrow> i = 0 \<and> fullMatch RE s"
    by (cases "i = 0") (simp_all only: e fullMatch_def if_True if_False simp_thms)
  moreover have "matchAt (allRE RE) s i \<noteq> None
      \<longleftrightarrow> ends (ignoreCase RE) (length s) (pattern (allRE RE)) (drop i s) \<noteq> []"
    by (simp add: matchAt_def ic split: list.splits)
  ultimately show ?thesis by blast
qed

lemma test_allRE: "test (allRE RE) s \<longleftrightarrow> fullMatch RE s"
proof -
  have a: "matchAt (allRE RE) s 0 \<noteq> None \<longleftrightarrow> fullMatch RE s"
    using matchAt_allRE[of 0 s RE] by simp
  have b: "searchFrom (allRE RE) s [0..<Suc (length s)] \<noteq> None \<longleftrightarrow> fullMatch RE s"
  proof -
    have "searchFrom (allRE RE) s [0..<Suc (length s)] \<noteq> None
            \<longleftrightarrow> (\<exists>i \<le> length s. matchAt (allRE RE) s i \<noteq> None)"
      by (auto simp: searchFrom_None less_Suc_eq_le simp del: upt_Suc)
    also have "\<dots> \<longleftrightarrow> fullMatch RE s" using matchAt_allRE[of _ s RE] by auto
    finally show ?thesis .
  qed
  show ?thesis using a b
    by (auto simp: test_def exec_def Let_def split: option.splits)
qed

lemma patt_accepts_eq: "patt_accepts p txt = accepts p txt"
  by (cases p) (auto simp: allRE_test_string_def test_allRE)

subsection \<open>\<^verbatim>\<open>anyRE\<close> on regular expressions without the flag \<^verbatim>\<open>i\<close>\<close>

text \<open>
  The source of the result is the sources joined by \<^verbatim>\<open>|\<close>. When no argument has the flag
  \<^verbatim>\<open>i\<close>, the result matches at an index what the first argument that matches there
  matches, and it matches every string that one of the arguments matches.
\<close>

lemma anyRE_source:
  "join ''|'' (map source REs) \<noteq> [] \<Longrightarrow> source (anyRE REs) = join ''|'' (map source REs)"
  by (simp add: anyRE_def RegExp_new_def)

lemma ends_alternatives:
  "ps \<noteq> [] \<Longrightarrow> ends ic L (alternatives ps) s = concat (map (\<lambda>p. ends ic L p s) ps)"
  by (induction ps rule: alternatives.induct) simp_all

lemma firstMatch_ends:
  assumes "\<forall>RE \<in> set REs. \<not> ignoreCase RE"
  shows "firstMatch REs str i
         = (case concat (map (\<lambda>RE. ends False (length str) (pattern RE) (drop i str)) REs) of
              [] \<Rightarrow> None
            | rest # x \<Rightarrow> Some (length str - length rest))"
  using assms
proof (induction REs)
  case Nil
  show ?case by simp
next
  case (Cons a REs)
  then show ?case
    by (cases "ends False (length str) (pattern a) (drop i str)") (simp_all add: matchAt_def)
qed

lemma matchAt_anyRE:
  assumes "REs \<noteq> []" and "\<forall>RE \<in> set REs. \<not> ignoreCase RE"
  shows "matchAt (anyRE REs) str i = firstMatch REs str i"
proof -
  have ic: "\<not> ignoreCase (anyRE REs)" by (simp add: anyRE_def RegExp_new_def ignoreCase_def)
  have p: "pattern (anyRE REs) = alternatives (map pattern REs)"
    by (simp add: anyRE_def RegExp_new_def)
  show ?thesis
    using assms(1)
    by (simp add: matchAt_def ic p ends_alternatives firstMatch_ends[OF assms(2)] comp_def)
qed

lemma firstMatch_None: "firstMatch REs str i = None \<longleftrightarrow> (\<forall>RE \<in> set REs. matchAt RE str i = None)"
  by (induction REs) (auto split: option.splits)

lemma searchFrom_Some:
  "searchFrom RE str is = Some (i, e) \<Longrightarrow> i \<in> set is \<and> matchAt RE str i = Some e"
  by (induction "is") (auto split: option.splits)

lemma test_matchAt:
  assumes "test RE str"
  shows "\<exists>i \<le> length str. matchAt RE str i \<noteq> None"
proof (cases "sticky RE")
  case True
  then have "matchAt RE str 0 \<noteq> None"
    using assms by (auto simp: test_def exec_def Let_def split: option.splits)
  then show ?thesis by blast
next
  case False
  then obtain i e where "searchFrom RE str [0..<Suc (length str)] = Some (i, e)"
    using assms by (auto simp: test_def exec_def Let_def split: option.splits simp del: upt_Suc)
  from searchFrom_Some[OF this] show ?thesis by (auto simp: less_Suc_eq_le simp del: upt_Suc)
qed

lemma anyRE_matches_any:
  assumes "\<forall>RE \<in> set REs. \<not> ignoreCase RE" and "RE \<in> set REs" and "test RE str"
  shows "test (anyRE REs) str"
proof -
  from test_matchAt[OF assms(3)] obtain i where i: "i \<le> length str" "matchAt RE str i \<noteq> None"
    by blast
  have "REs \<noteq> []" using assms(2) by auto
  then have "matchAt (anyRE REs) str i \<noteq> None"
    using matchAt_anyRE[OF _ assms(1)] firstMatch_None[of REs str i] assms(2) i(2) by auto
  then have "searchFrom (anyRE REs) str [0..<Suc (length str)] \<noteq> None"
    using i(1) by (auto simp: searchFrom_None less_Suc_eq_le simp del: upt_Suc)
  moreover have "\<not> sticky (anyRE REs)" "\<not> global (anyRE REs)"
    by (simp_all add: anyRE_def RegExp_new_def sticky_def global_def)
  ultimately show ?thesis
    by (auto simp: test_def exec_def Let_def split: option.splits simp del: upt_Suc)
qed

subsection \<open>\<^verbatim>\<open>anyRE\<close> and flags\<close>

text \<open>
  C7. \<^verbatim>\<open>anyRE\<close> gives the joined sources to \<^verbatim>\<open>RegExp\<close> without the flags of its
  arguments: \<^verbatim>\<open>/a/i\<close> matches \<^verbatim>\<open>A\<close>, and \<^verbatim>\<open>anyRE(/a/i)\<close>, which is \<^verbatim>\<open>/a/\<close>, does not.
\<close>

theorem anyRE_drops_flags:
  "test RE_a_i ''A'' \<and> \<not> test (anyRE [RE_a_i]) ''A''
   \<and> source (anyRE [RE_a_i]) = ''a'' \<and> flags (anyRE [RE_a_i]) = []"
  by code_simp

section \<open>Properties of the packrat substrate\<close>

text \<open>The example scanners hold the tokens of their templates, and the example states arise from runs.\<close>

lemma scanner_space_one_toks:
  "tokensInTemplate ['' 1''] TOKEN_RE = Some (Inr (toks scanner_space_one))"
  by code_simp

lemma scanner_x_x_toks:
  "tokensInTemplate [''x x''] TOKEN_RE = Some (Inr (toks scanner_x_x))"
  by code_simp

lemma after_eat_a_run:
  "run True scanner_space_one 3 (KPatt (PStr ''a'')) 0 (JSON_stringify ''a'') new_Packratter
     = Some (Inr (1, FAIL), after_eat_a)"
  by code_simp

text \<open>
  C2. When \<^verbatim>\<open>run\<close> finds \<^verbatim>\<open>LEFT_RECUR\<close> in the memo at \<open>(pos, ruleOrPatt)\<close>, it throws the
  error \<^verbatim>\<open>Left recursion on rule: name\<close>; it returns no result, calls nothing and leaves
  the state as it is.
\<close>

theorem run_left_recursion:
  assumes "map_of (memo st) pos = Some posm" and "map_of posm ruleOrPatt = Some LEFT_RECUR"
  shows "run True sc (Suc n) ruleOrPatt pos name st
           = Some (Inl (Error (''Left recursion on rule: '' @ name)), st)"
  using assms by (simp add: posm_of_def)

theorem run_left_recursion_witness:
  "run True scanner_x_x (Suc 0) (KFun (F_rule 0)) 0 ''A'' in_rule_A
     = Some (Inl (Error (''Left recursion on rule: '' @ ''A'')), in_rule_A)"
proof -
  have h1: "map_of (memo in_rule_A) 0 = Some [(KFun (F_rule 0), LEFT_RECUR)]"
    by (simp add: in_rule_A_def)
  have h2: "map_of [(KFun (F_rule 0), LEFT_RECUR)] (KFun (F_rule 0)) = Some LEFT_RECUR"
    by simp
  from run_left_recursion[OF h1 h2] show ?thesis .
qed

lemma left_recursive_grammar_raises:
  "\<exists>st. run True scanner_x_x (Suc (Suc n)) (KFun (F_rule 0)) 0 ''A'' new_Packratter
     = Some (Inl (Error ''Left recursion on rule: A''), st)"
  by (simp add: new_Packratter_def posm_of_def posm_set_def scanner_x_x_def rule_A_def)

subsection \<open>\<^verbatim>\<open>lastFailures\<close>\<close>

lemma lastFailures_entries:
  "lastFailures st = fold lastFailures_step (memo_entries st) (0, [])"
proof -
  have "fold (\<lambda>(pos, posm) acc. fold lastFailures_step posm acc) m a
          = fold lastFailures_step (concat (map snd m)) a" for m a
    by (induction m arbitrary: a) (auto simp: case_prod_beta)
  then show ?thesis by (simp add: lastFailures_def memo_entries_def)
qed

lemma lastFailures_step_cases:
  "lastFailures_step x (m, fs) =
     (case failPos x of
        None \<Rightarrow> (m, fs)
      | Some p \<Rightarrow> if p > m then (p, [failName x])
                  else if p = m then (m, fs @ [failName x]) else (m, fs))"
  by (cases x; cases "snd x") (auto simp: failName_def Let_def split: entry.splits)

lemma fold_lastFailures_step:
  assumes "fold lastFailures_step xs (0, []) = (m, fs)"
  shows "(\<forall>x \<in> set xs. \<forall>p. failPos x = Some p \<longrightarrow> p \<le> m)
         \<and> fs = map failName (filter (\<lambda>x. failPos x = Some m) xs)
         \<and> (m = 0 \<or> (\<exists>x \<in> set xs. failPos x = Some m))"
  using assms
proof (induction xs arbitrary: m fs rule: rev_induct)
  case Nil
  then show ?case by simp
next
  case (snoc x xs)
  obtain m0 fs0 where f: "fold lastFailures_step xs (0, []) = (m0, fs0)" by force
  note IH = snoc.IH[OF f]
  have s: "lastFailures_step x (m0, fs0) = (m, fs)" using snoc.prems f by simp
  show ?case
  proof (cases "failPos x")
    case None
    then have "m = m0" "fs = fs0" using s by (auto simp: lastFailures_step_cases)
    then show ?thesis using IH None by auto
  next
    case (Some p)
    consider "p > m0" | "p = m0" | "p < m0" by linarith
    then show ?thesis
    proof cases
      case 1
      then have e: "m = p" "fs = [failName x]" using s Some by (auto simp: lastFailures_step_cases)
      have "filter (\<lambda>y. failPos y = Some p) xs = []"
        using IH 1 by (auto simp: filter_empty_conv)
      then show ?thesis using IH 1 Some e by auto
    next
      case 2
      then have "m = m0" "fs = fs0 @ [failName x]"
        using s Some by (auto simp: lastFailures_step_cases)
      then show ?thesis using IH 2 Some by auto
    next
      case 3
      then have "m = m0" "fs = fs0" using s Some by (auto simp: lastFailures_step_cases)
      then show ?thesis using IH 3 Some by auto
    qed
  qed
qed

text \<open>
  C6, as amended. \<^verbatim>\<open>lastFailures\<close> returns \<open>(maxPos, fails)\<close> where \<open>maxPos\<close> is at least the
  position of every \<^verbatim>\<open>FAIL\<close> result that the memo holds under a key that is not a function,
  and \<open>fails\<close> lists the printable names of the keys, functions excluded, that hold a
  \<^verbatim>\<open>FAIL\<close> result with position \<open>maxPos\<close>, in the order of the memo.
\<close>

theorem lastFailures_pattern_keys:
  assumes "lastFailures st = (maxPos, fails)"
  shows "(\<forall>x \<in> set (memo_entries st). \<forall>newPos. failPos x = Some newPos \<longrightarrow> newPos \<le> maxPos)
         \<and> fails = map failName (filter (\<lambda>x. failPos x = Some maxPos) (memo_entries st))"
  using fold_lastFailures_step[of "memo_entries st" maxPos fails] assms
  by (simp add: lastFailures_entries)

theorem lastFailures_pattern_keys_witness:
  "[JSON_stringify ''a'']
     = map failName (filter (\<lambda>x. failPos x = Some 1) (memo_entries after_eat_a))"
proof -
  have h: "lastFailures after_eat_a = (1, [JSON_stringify ''a''])"
    by code_simp
  from lastFailures_pattern_keys[OF h] show ?thesis by (rule conjunct2)
qed

text \<open>
  The property as the specification states it fails: after \<^verbatim>\<open>run(this.rule_IDENT, 0, 'IDENT')\<close> on the tokens of
  \<^verbatim>\<open> 1\<close> the memo holds the result \<^verbatim>\<open>[1, FAIL]\<close> under the key \<^verbatim>\<open>rule_IDENT\<close>, and
  \<^verbatim>\<open>lastFailures\<close> returns the position 0.
\<close>

theorem lastFailures_skips_functions:
  "run True scanner_space_one 3 (KFun F_IDENT) 0 ''IDENT'' new_Packratter
     = Some (Inr (1, FAIL), after_IDENT)
   \<and> (KFun F_IDENT, Result (1, FAIL)) \<in> set (memo_entries after_IDENT)
   \<and> lastFailures after_IDENT = (0, [])"
  by code_simp

section \<open>Properties of the scanner\<close>

subsection \<open>The memo as a function of position and key\<close>

lemma posm_of_install [simp]: "posm_of (install st pos) p = posm_of st p"
  by (auto simp: install_def posm_of_def map_of_append split: option.splits if_splits)

lemma lookup_install [simp]: "lookup (install st pos) p k = lookup st p k"
  by (simp add: lookup_def)

lemma posm_of_posm_set:
  "posm_of (posm_set st pos k e) p
     = (if p = pos then AList.update k e (posm_of st pos) else posm_of st p)"
  by (simp add: posm_set_def posm_of_def update_conv')

lemma lookup_posm_set [simp]:
  "lookup (posm_set st pos k e) p k'
     = (if p = pos \<and> k' = k then Some e else lookup st p k')"
  by (simp add: lookup_def posm_of_posm_set update_conv')

lemma posm_of_counters [simp]:
  "posm_of (st\<lparr>hits := h\<rparr>) p = posm_of st p"
  "posm_of (st\<lparr>misses := m\<rparr>) p = posm_of st p"
  by (simp_all add: posm_of_def)

lemma lookup_counters [simp]:
  "lookup (st\<lparr>hits := h\<rparr>) p k = lookup st p k"
  "lookup (st\<lparr>misses := m\<rparr>) p k = lookup st p k"
  by (simp_all add: lookup_def)

lemma lookup_enter [simp]:
  "lookup (enter st pos k) p k' = (if p = pos \<and> k' = k then Some LEFT_RECUR else lookup st p k')"
  by (simp add: enter_def Let_def)

lemma lookup_new [simp]: "lookup new_Packratter p k = None"
  by (simp add: lookup_def posm_of_def new_Packratter_def)

subsection \<open>The three ways through \<^verbatim>\<open>run\<close>\<close>

lemma run_hit:
  assumes "lookup st pos k = Some (Result r)"
  shows "run True sc (Suc n) k pos name st = Some (Inr r, (install st pos)\<lparr>hits := hits (install st pos) + 1\<rparr>)"
  using assms by (simp add: lookup_def install_def[symmetric] Let_def)

lemma run_probe:
  assumes "lookup st pos k = Some LEFT_RECUR"
  shows "run True sc (Suc n) k pos name st
           = Some (Inl (Error (''Left recursion on rule: '' @ name)), install st pos)"
  using assms by (simp add: lookup_def install_def[symmetric] Let_def)

lemma run_miss:
  assumes "mz \<longrightarrow> lookup st pos k = None"
  shows "run mz sc (Suc n) k pos name st
           = andThen
               (case k of
                  KFun f \<Rightarrow> call n (run mz sc n) sc f pos (enter st pos k)
                | KUndef \<Rightarrow> Some (Inl (Error (''Rule missing: '' @ name)), enter st pos k)
                | KPatt p \<Rightarrow> eat n (run mz sc n) sc pos p (enter st pos k))
               (\<lambda>r st4. Some (Inr r, posm_set st4 pos k (Result r)))"
  using assms
  by (cases mz; cases k) (simp_all add: lookup_def install_def[symmetric] enter_def Let_def)

subsection \<open>Invariants of the state\<close>

lemma preservesD: "preserves I f \<Longrightarrow> I st \<Longrightarrow> f st = Some (x, st') \<Longrightarrow> I st'"
  by (auto simp: preserves_def)

lemma preserves_Some [simp]: "preserves I (\<lambda>st. Some (x, st))"
  by (simp add: preserves_def)

lemma preserves_None [simp]: "preserves I (\<lambda>st. None)"
  by (simp add: preserves_def)

lemma preserves_andThen:
  assumes "preserves I f" and "\<And>x. preserves I (g x)"
  shows "preserves I (\<lambda>st. andThen (f st) g)"
  unfolding preserves_def
proof (intro allI impI)
  fix st y st' assume I: "I st" and r: "andThen (f st) g = Some (y, st')"
  show "I st'"
  proof (cases "f st")
    case None
    then show ?thesis using r by simp
  next
    case (Some a)
    obtain o1 s1 where a: "a = (o1, s1)" by (cases a)
    have I1: "I s1" using preservesD[OF assms(1) I] Some a by simp
    show ?thesis
    proof (cases o1)
      case (Inl e)
      then show ?thesis using r Some a I1 by simp
    next
      case (Inr x)
      then have "g x s1 = Some (y, st')" using r Some a by simp
      then show ?thesis using preservesD[OF assms(2) I1] by simp
    qed
  qed
qed

lemma preserves_interp:
  assumes "\<And>k p nm. preserves I (runf k p nm)"
  shows "preserves I (interp runf body)"
proof (induction body)
  case (Return r)
  show ?case by (simp add: preserves_def)
next
  case (Run k p nm cont)
  have "preserves I (\<lambda>st. andThen (runf k p nm st) (\<lambda>r st'. interp runf (cont r) st'))"
    by (rule preserves_andThen[OF assms]) (simp add: Run.IH)
  then show ?case by (simp add: preserves_def)
qed

lemma preserves_rule_SKIP:
  assumes "\<And>k p nm. preserves I (runf k p nm)"
  shows "preserves I (rule_SKIP n runf sc pos)"
proof (induction n arbitrary: pos)
  case 0
  show ?case by (simp add: preserves_def)
next
  case (Suc n)
  have c: "preserves I (\<lambda>st. andThen (runf (KFun F_COMMENT) pos ''COMMENT'' st)
                (\<lambda>pair st'. if snd pair \<noteq> FAIL then rule_SKIP n runf sc (fst pair) st'
                             else Some (Inr (pos, Str []), st')))"
  proof (rule preserves_andThen[OF assms])
    fix x :: result
    show "preserves I (\<lambda>st'. if snd x \<noteq> FAIL then rule_SKIP n runf sc (fst x) st'
                                else Some (Inr (pos, Str []), st'))"
      by (cases "snd x \<noteq> FAIL") (simp_all add: Suc.IH)
  qed
  show ?case
    unfolding preserves_def
  proof (intro allI impI)
    fix st y st' assume I: "I st" and r: "rule_SKIP (Suc n) runf sc pos st = Some (y, st')"
    show "I st'"
    proof (cases "pos < length (toks sc)")
      case False
      then show ?thesis using r I by simp
    next
      case True
      show ?thesis
      proof (cases "toks sc ! pos")
        case (Hole h)
        then show ?thesis using r I True by simp
      next
        case (Tok token)
        show ?thesis
        proof (cases "snd (rule_SPACE sc pos) \<noteq> FAIL")
          case True
          then have "rule_SKIP n runf sc (fst (rule_SPACE sc pos)) st = Some (y, st')"
            using r Tok \<open>pos < length (toks sc)\<close> by (simp add: Let_def)
          then show ?thesis using preservesD[OF Suc.IH I] by blast
        next
          case False
          then have "andThen (runf (KFun F_COMMENT) pos ''COMMENT'' st)
                (\<lambda>pair st'. if snd pair \<noteq> FAIL then rule_SKIP n runf sc (fst pair) st'
                             else Some (Inr (pos, Str []), st')) = Some (y, st')"
            using r Tok \<open>pos < length (toks sc)\<close> by (simp add: Let_def)
          then show ?thesis using preservesD[OF c I] by blast
        qed
      qed
    qed
  qed
qed

lemma preserves_after_SKIP:
  assumes "\<And>k p nm. preserves I (runf k p nm)"
  shows "preserves I (\<lambda>st. andThen (rule_SKIP n runf sc pos st) (\<lambda>pair st'. Some (g pair, st')))"
  by (rule preserves_andThen[OF preserves_rule_SKIP[OF assms]]) simp

lemma preserves_eat:
  assumes "\<And>k p nm. preserves I (runf k p nm)"
  shows "preserves I (eat n runf sc pos p)"
  using preserves_after_SKIP[OF assms] unfolding eat_def Let_def .

lemma preserves_rules:
  assumes "\<And>k p nm. preserves I (runf k p nm)"
  shows "preserves I (rule_NUMBER n runf sc pos)" "preserves I (rule_STRING n runf sc pos)"
    "preserves I (rule_IDENT n runf sc pos)" "preserves I (rule_HOLE n runf sc pos)"
    "preserves I (rule_EOF n runf sc pos)"
proof -
  show "preserves I (rule_NUMBER n runf sc pos)" "preserves I (rule_STRING n runf sc pos)"
    using preserves_eat[OF assms] by (simp_all add: rule_NUMBER_def rule_STRING_def preserves_def)
  show "preserves I (rule_IDENT n runf sc pos)"
    using preserves_after_SKIP[OF assms] unfolding rule_IDENT_def Let_def .
  show "preserves I (rule_HOLE n runf sc pos)"
    using preserves_after_SKIP[OF assms] unfolding rule_HOLE_def Let_def .
  show "preserves I (rule_EOF n runf sc pos)"
    using preserves_after_SKIP[OF assms] unfolding rule_EOF_def Let_def .
qed

lemma preserves_call:
  assumes "\<And>k p nm. preserves I (runf k p nm)"
  shows "preserves I (call n runf sc f pos)"
proof -
  have e: "preserves I (call n runf sc f pos) = preserves I g"
    if "\<And>st. call n runf sc f pos st = g st" for g
    using that by (simp add: preserves_def)
  show ?thesis
  proof (cases f)
    case F_SPACE
    show ?thesis by (simp add: F_SPACE preserves_def)
  next
    case F_COMMENT
    show ?thesis by (simp add: F_COMMENT preserves_def)
  next
    case F_SKIP
    show ?thesis using preserves_rule_SKIP[OF assms] by (subst e[of "rule_SKIP n runf sc pos"]) (simp_all add: F_SKIP)
  next
    case F_NUMBER
    show ?thesis using preserves_rules(1)[OF assms] by (subst e[of "rule_NUMBER n runf sc pos"]) (simp_all add: F_NUMBER)
  next
    case F_STRING
    show ?thesis using preserves_rules(2)[OF assms] by (subst e[of "rule_STRING n runf sc pos"]) (simp_all add: F_STRING)
  next
    case F_IDENT
    show ?thesis using preserves_rules(3)[OF assms] by (subst e[of "rule_IDENT n runf sc pos"]) (simp_all add: F_IDENT)
  next
    case F_HOLE
    show ?thesis using preserves_rules(4)[OF assms] by (subst e[of "rule_HOLE n runf sc pos"]) (simp_all add: F_HOLE)
  next
    case F_EOF
    show ?thesis using preserves_rules(5)[OF assms] by (subst e[of "rule_EOF n runf sc pos"]) (simp_all add: F_EOF)
  next
    case (F_rule u)
    show ?thesis using preserves_interp[OF assms] by (subst e[of "interp runf (rules sc u pos)"]) (simp_all add: F_rule)
  qed
qed

subsection \<open>The memo entries of \<^verbatim>\<open>rule_COMMENT\<close>\<close>

lemma memo_ok_new: "memo_ok sc new_Packratter"
  by (simp add: memo_ok_def)

lemma run_memo_ok: "preserves (memo_ok sc) (run mz sc n k pos nm)"
proof (induction n arbitrary: k pos nm)
  case 0
  show ?case by (simp add: preserves_def)
next
  case (Suc n)
  show ?case
    unfolding preserves_def
  proof (intro allI impI)
    fix st x st'
    assume ok: "memo_ok sc st" and r: "run mz sc (Suc n) k pos nm st = Some (x, st')"
    consider (hit) r0 where "mz" "lookup st pos k = Some (Result r0)"
      | (probe) "mz" "lookup st pos k = Some LEFT_RECUR"
      | (miss) "mz \<longrightarrow> lookup st pos k = None"
    proof (cases "mz \<longrightarrow> lookup st pos k = None")
      case True
      then show ?thesis using miss by blast
    next
      case False
      then obtain e where e: "mz" "lookup st pos k = Some e" by auto
      show ?thesis using e hit probe by (cases e) auto
    qed
    then show "memo_ok sc st'"
    proof cases
      case hit
      then show ?thesis using r ok run_hit[OF hit(2)] by (auto simp: memo_ok_def)
    next
      case probe
      then show ?thesis using r ok run_probe[OF probe(2)] by (auto simp: memo_ok_def)
    next
      case miss
      let ?body = "\<lambda>st3. case k of
                  KFun f \<Rightarrow> call n (run mz sc n) sc f pos st3
                | KUndef \<Rightarrow> Some (Inl (Error (''Rule missing: '' @ nm)), st3)
                | KPatt p \<Rightarrow> eat n (run mz sc n) sc pos p st3"
      let ?fin = "\<lambda>r st4. Some (Inr r :: outcome, posm_set st4 pos k (Result r))"
      have r': "andThen (?body (enter st pos k)) ?fin = Some (x, st')"
        using run_miss[OF miss] r by simp
      show ?thesis
      proof (cases "k = KFun F_COMMENT")
        case True
        then have "st' = posm_set (enter st pos k) pos k (Result (rule_COMMENT sc pos))"
          using r' by simp
        then show ?thesis using ok True by (auto simp: memo_ok_def)
      next
        case False
        have ok3: "memo_ok sc (enter st pos k)" using ok False by (auto simp: memo_ok_def)
        have pb: "preserves (memo_ok sc) ?body"
        proof (cases k)
          case (KFun f)
          then show ?thesis using preserves_call[of "memo_ok sc" "run mz sc n", OF Suc.IH]
            by (simp add: preserves_def)
        next
          case (KPatt p)
          then show ?thesis using preserves_eat[of "memo_ok sc" "run mz sc n", OF Suc.IH]
            by (simp add: preserves_def)
        next
          case KUndef
          then show ?thesis by (simp add: preserves_def)
        qed
        have "preserves (memo_ok sc) (\<lambda>st3. andThen (?body st3) ?fin)"
          by (rule preserves_andThen[OF pb]) (use False in \<open>auto simp: preserves_def memo_ok_def\<close>)
        from preservesD[OF this ok3 r'] show ?thesis .
      qed
    qed
  qed
qed

lemma run_COMMENT:
  assumes "memo_ok sc st"
  shows "\<exists>st'. run mz sc (Suc m) (KFun F_COMMENT) pos nm st = Some (Inr (rule_COMMENT sc pos), st')
               \<and> memo_ok sc st'"
proof -
  have "\<exists>st'. run mz sc (Suc m) (KFun F_COMMENT) pos nm st = Some (Inr (rule_COMMENT sc pos), st')"
  proof (cases "mz \<longrightarrow> lookup st pos (KFun F_COMMENT) = None")
    case True
    then show ?thesis using run_miss[OF True] by simp
  next
    case False
    then obtain e where e: "mz" "lookup st pos (KFun F_COMMENT) = Some e" by auto
    then have "e = Result (rule_COMMENT sc pos)" using assms by (simp add: memo_ok_def)
    then show ?thesis using run_hit e by simp
  qed
  then show ?thesis using preservesD[OF run_memo_ok assms] by blast
qed

subsection \<open>\<^verbatim>\<open>rule_SKIP\<close>\<close>

lemma skip_cases:
  "skip sc pos RE = (if pos < length (toks sc) \<and>
       (\<exists>token. toks sc ! pos = Tok token \<and> test (allRE RE) (tok_text token))
     then (Suc pos, Str []) else (pos, FAIL))"
  by (auto simp: skip_def split: element.splits)

lemma skippable_iff:
  "skippable sc i \<longleftrightarrow> snd (rule_SPACE sc i) \<noteq> FAIL \<or> snd (rule_COMMENT sc i) \<noteq> FAIL"
  by (auto simp: skippable_def rule_SPACE_def rule_COMMENT_def skip_cases split: element.splits)

lemma rule_SPACE_fst: "snd (rule_SPACE sc i) \<noteq> FAIL \<Longrightarrow> fst (rule_SPACE sc i) = Suc i \<and> i < length (toks sc)"
  by (auto simp: rule_SPACE_def skip_cases split: if_splits)

lemma rule_COMMENT_fst: "snd (rule_COMMENT sc i) \<noteq> FAIL \<Longrightarrow> fst (rule_COMMENT sc i) = Suc i \<and> i < length (toks sc)"
  by (auto simp: rule_COMMENT_def skip_cases split: if_splits)

lemma rule_SKIP_spec:
  assumes R: "\<And>p st. memo_ok sc st \<Longrightarrow>
      \<exists>st'. runf (KFun F_COMMENT) p ''COMMENT'' st = Some (Inr (rule_COMMENT sc p), st')
            \<and> memo_ok sc st'"
    and "memo_ok sc st" and "length (toks sc) - pos < n"
  shows "\<exists>pos' st'. rule_SKIP n runf sc pos st = Some (Inr (pos', Str []), st')
           \<and> memo_ok sc st' \<and> pos \<le> pos'
           \<and> (\<forall>i. pos \<le> i \<and> i < pos' \<longrightarrow> skippable sc i) \<and> \<not> skippable sc pos'"
  using assms(2,3)
proof (induction n arbitrary: pos st)
  case 0
  then show ?case by simp
next
  case (Suc n)
  have stop: "\<not> skippable sc pos \<Longrightarrow> memo_ok sc s \<Longrightarrow>
      \<exists>pos' st'. Some (Inr (pos, Str []), s) = Some (Inr (pos', Str []), st')
           \<and> memo_ok sc st' \<and> pos \<le> pos'
           \<and> (\<forall>i. pos \<le> i \<and> i < pos' \<longrightarrow> skippable sc i) \<and> \<not> skippable sc pos'" for s
    by auto
  have go: "\<exists>pos' st'. rule_SKIP n runf sc (Suc pos) s = Some (Inr (pos', Str []), st')
           \<and> memo_ok sc st' \<and> pos \<le> pos'
           \<and> (\<forall>i. pos \<le> i \<and> i < pos' \<longrightarrow> skippable sc i) \<and> \<not> skippable sc pos'"
    if "skippable sc pos" "memo_ok sc s" for s
  proof -
    have "pos < length (toks sc)" using that(1) by (simp add: skippable_def)
    then have "length (toks sc) - Suc pos < n" using Suc.prems(2) by simp
    from Suc.IH[OF that(2) this] obtain pos' st' where
      h: "rule_SKIP n runf sc (Suc pos) s = Some (Inr (pos', Str []), st')" "memo_ok sc st'"
         "Suc pos \<le> pos'" "\<forall>i. Suc pos \<le> i \<and> i < pos' \<longrightarrow> skippable sc i" "\<not> skippable sc pos'"
      by blast
    have "\<forall>i. pos \<le> i \<and> i < pos' \<longrightarrow> skippable sc i"
      using h(4) that(1) by (metis Suc_leI le_neq_implies_less)
    then show ?thesis using h by auto
  qed
  show ?case
  proof (cases "pos < length (toks sc)")
    case False
    then have "\<not> skippable sc pos" by (simp add: skippable_def)
    from stop[OF this Suc.prems(1)] False show ?thesis by simp
  next
    case True
    show ?thesis
    proof (cases "toks sc ! pos")
      case (Hole h)
      then have "\<not> skippable sc pos" by (simp add: skippable_def)
      from stop[OF this Suc.prems(1)] True Hole show ?thesis by simp
    next
      case (Tok token)
      show ?thesis
      proof (cases "snd (rule_SPACE sc pos) \<noteq> FAIL")
        case sp: True
        then have "skippable sc pos" by (simp add: skippable_iff)
        from go[OF this Suc.prems(1)] show ?thesis
          using True Tok sp rule_SPACE_fst[OF sp] by (simp add: Let_def)
      next
        case nsp: False
        from R[OF Suc.prems(1)] obtain s where
          s: "runf (KFun F_COMMENT) pos ''COMMENT'' st = Some (Inr (rule_COMMENT sc pos), s)"
             "memo_ok sc s" by blast
        show ?thesis
        proof (cases "snd (rule_COMMENT sc pos) \<noteq> FAIL")
          case c: True
          then have "skippable sc pos" by (simp add: skippable_iff)
          from go[OF this s(2)] show ?thesis
            using True Tok nsp s(1) c rule_COMMENT_fst[OF c] by (simp add: Let_def)
        next
          case nc: False
          then have "\<not> skippable sc pos" using nsp by (simp add: skippable_iff)
          from stop[OF this s(2)] show ?thesis
            using True Tok nsp s(1) nc by (simp add: Let_def)
        qed
      qed
    qed
  qed
qed

lemma skippable_run_bounded:
  assumes "\<forall>i. pos \<le> i \<and> i < pos' \<longrightarrow> skippable sc i" "pos \<le> length (toks sc)"
  shows "pos' \<le> length (toks sc) \<or> pos' \<le> pos"
proof (rule ccontr)
  assume "\<not> ?thesis"
  then have "pos \<le> length (toks sc) \<and> length (toks sc) < pos'" using assms(2) by simp
  then have "skippable sc (length (toks sc))" using assms(1) by blast
  then show False by (simp add: skippable_def)
qed

lemma rule_SKIP_run:
  assumes "memo_ok sc st" and "length (toks sc) - pos < n"
  shows "\<exists>pos' st'. rule_SKIP n (run mz sc (Suc m)) sc pos st = Some (Inr (pos', Str []), st')
           \<and> pos \<le> pos'
           \<and> (\<forall>i. pos \<le> i \<and> i < pos' \<longrightarrow> skippable sc i)
           \<and> (\<forall>i h. pos \<le> i \<and> i < pos' \<longrightarrow> toks sc ! i \<noteq> Hole h)
           \<and> \<not> skippable sc pos'
           \<and> memo_ok sc st'"
proof -
  from rule_SKIP_spec[of sc "run mz sc (Suc m)", OF run_COMMENT assms]
  obtain pos' st' where
    h: "rule_SKIP n (run mz sc (Suc m)) sc pos st = Some (Inr (pos', Str []), st')"
       "memo_ok sc st'" "pos \<le> pos'" "\<forall>i. pos \<le> i \<and> i < pos' \<longrightarrow> skippable sc i"
       "\<not> skippable sc pos'"
    by blast
  have "\<forall>i h. pos \<le> i \<and> i < pos' \<longrightarrow> toks sc ! i \<noteq> Hole h"
    using h(4) by (auto simp: skippable_def)
  then show ?thesis using h by blast
qed

text \<open>
  C8. In a state that \<^verbatim>\<open>run\<close> can reach, \<^verbatim>\<open>rule_SKIP(pos)\<close> returns and never fails or throws:
  the result is \<open>(pos', "")\<close> where every element from \<open>pos\<close> up to \<open>pos'\<close> is a token of
  white space or a line comment (so none is a hole marker), and the element at \<open>pos'\<close>, if
  there is one, is a hole marker or another token.
\<close>

theorem rule_SKIP_never_fails:
  assumes "memo_ok sc st" and "length (toks sc) - pos < n"
  shows "\<exists>pos' st'. rule_SKIP n (run mz sc (Suc m)) sc pos st = Some (Inr (pos', Str []), st')
           \<and> pos \<le> pos'
           \<and> (\<forall>i. pos \<le> i \<and> i < pos' \<longrightarrow> skippable sc i)
           \<and> (\<forall>i h. pos \<le> i \<and> i < pos' \<longrightarrow> toks sc ! i \<noteq> Hole h)
           \<and> \<not> skippable sc pos'
           \<and> memo_ok sc st'"
  using rule_SKIP_run[OF assms] .

theorem rule_SKIP_never_fails_witness:
  "\<exists>pos' st'. rule_SKIP 3 (run True scanner_space_one (Suc 0)) scanner_space_one 0 new_Packratter
                 = Some (Inr (pos', Str []), st')
           \<and> 0 \<le> pos'
           \<and> (\<forall>i. 0 \<le> i \<and> i < pos' \<longrightarrow> skippable scanner_space_one i)
           \<and> (\<forall>i h. 0 \<le> i \<and> i < pos' \<longrightarrow> toks scanner_space_one ! i \<noteq> Hole h)
           \<and> \<not> skippable scanner_space_one pos'
           \<and> memo_ok scanner_space_one st'"
proof -
  have h1: "memo_ok scanner_space_one new_Packratter" by (rule memo_ok_new)
  have h2: "length (toks scanner_space_one) - 0 < 3" by (simp add: scanner_space_one_def)
  from rule_SKIP_never_fails[OF h1 h2] show ?thesis .
qed

lemma after_SKIP:
  assumes "memo_ok sc st" and "length (toks sc) - pos < n"
  obtains pos' st' where
    "rule_SKIP n (run mz sc (Suc m)) sc pos st = Some (Inr (pos', Str []), st')"
    "pos \<le> pos'" "\<forall>i. pos \<le> i \<and> i < pos' \<longrightarrow> skippable sc i" "\<not> skippable sc pos'"
    "memo_ok sc st'"
  using rule_SKIP_run[OF assms, of mz m] by blast

text \<open>
  C3, as amended. \<^verbatim>\<open>eat(pos, patt)\<close> first runs \<^verbatim>\<open>rule_SKIP\<close>, which moves to the position
  \<open>pos'\<close>. If the element at \<open>pos'\<close> is a token whose text equals \<open>patt\<close> (a string) or
  is matched as a whole by \<open>patt\<close> (a regular expression), the result is
  \<open>(pos' + 1, text)\<close>; otherwise it is \<open>(pos', FAIL)\<close>, with the position after the skip.
\<close>

theorem eat_spec:
  assumes "memo_ok sc st" and "length (toks sc) - pos < n"
  shows "\<exists>pos' r st'.
           rule_SKIP n (run mz sc (Suc m)) sc pos st = Some (Inr (pos', Str []), st')
           \<and> pos \<le> pos' \<and> (\<forall>i. pos \<le> i \<and> i < pos' \<longrightarrow> skippable sc i) \<and> \<not> skippable sc pos'
           \<and> eat n (run mz sc (Suc m)) sc pos p st = Some (Inr r, st')
           \<and> r = (case tokenAt sc pos' of
                     Some txt \<Rightarrow> if accepts p txt then (pos' + 1, Str txt) else (pos', FAIL)
                   | None \<Rightarrow> (pos', FAIL))"
proof -
  from after_SKIP[OF assms, of mz m] obtain pos' st' where
    h: "rule_SKIP n (run mz sc (Suc m)) sc pos st = Some (Inr (pos', Str []), st')"
    "pos \<le> pos'" "\<forall>i. pos \<le> i \<and> i < pos' \<longrightarrow> skippable sc i" "\<not> skippable sc pos'"
    by metis
  have "eat n (run mz sc (Suc m)) sc pos p st
          = Some (Inr (case tokenAt sc pos' of
                     Some txt \<Rightarrow> if accepts p txt then (pos' + 1, Str txt) else (pos', FAIL)
                   | None \<Rightarrow> (pos', FAIL)), st')"
    by (simp add: eat_def h(1) tokenAt_def patt_accepts_eq split: element.splits)
  then show ?thesis using h by blast
qed

theorem eat_spec_witness:
  "\<exists>pos' r st'.
     rule_SKIP 3 (run True scanner_space_one (Suc 0)) scanner_space_one 0 new_Packratter
       = Some (Inr (pos', Str []), st')
     \<and> 0 \<le> pos' \<and> (\<forall>i. 0 \<le> i \<and> i < pos' \<longrightarrow> skippable scanner_space_one i)
     \<and> \<not> skippable scanner_space_one pos'
     \<and> eat 3 (run True scanner_space_one (Suc 0)) scanner_space_one 0 (PRe NUMBER_RE)
           new_Packratter = Some (Inr r, st')
     \<and> r = (case tokenAt scanner_space_one pos' of
               Some txt \<Rightarrow> if accepts (PRe NUMBER_RE) txt then (pos' + 1, Str txt)
                           else (pos', FAIL)
             | None \<Rightarrow> (pos', FAIL))"
proof -
  have h1: "memo_ok scanner_space_one new_Packratter" by (rule memo_ok_new)
  have h2: "length (toks scanner_space_one) - 0 < 3" by (simp add: scanner_space_one_def)
  from eat_spec[OF h1 h2] show ?thesis .
qed

text \<open>
  The property as the specification states it fails: on the tokens of \<^verbatim>\<open> 1\<close>, \<^verbatim>\<open>eat(0, "a")\<close> skips the space and
  returns \<^verbatim>\<open>[1, FAIL]\<close>, not \<^verbatim>\<open>[0, FAIL]\<close> with the position it was called with.
\<close>

theorem eat_fail_position:
  "map_option fst (eat 3 (run True scanner_space_one (Suc 0)) scanner_space_one 0 (PStr ''a'')
                     new_Packratter)
     = Some (Inr (1, FAIL))"
  by code_simp

lemma eat_number_example:
  "map_option fst (eat 3 (run True scanner_space_one (Suc 0)) scanner_space_one 0
                     (PRe NUMBER_RE) new_Packratter)
     = Some (Inr (2, Str ''1''))"
  by code_simp

lemma skip_bounds:
  "pos \<le> fst (skip sc pos RE) \<and> (pos \<le> length (toks sc) \<longrightarrow> fst (skip sc pos RE) \<le> length (toks sc))"
  by (simp add: skip_cases)

text \<open>
  C10. In a state that \<^verbatim>\<open>run\<close> can reach and at a position \<open>pos\<close> within the token stream
  or at its end, \<^verbatim>\<open>skip\<close>, \<^verbatim>\<open>eat\<close> and every rule method of \<^verbatim>\<open>Scanner\<close> return a position
  \<open>pos'\<close> with \<open>pos \<le> pos'\<close> and \<open>pos'\<close> at most the length of the stream, whether the value
  is \<^verbatim>\<open>FAIL\<close> or not.
\<close>

theorem scanner_positions_bounded:
  assumes "memo_ok sc st" and "pos \<le> length (toks sc)" and "length (toks sc) - pos < n"
    and "is_method f"
  shows "(pos \<le> fst (skip sc pos RE) \<and> fst (skip sc pos RE) \<le> length (toks sc))
       \<and> (\<exists>pos' v st'. eat n (run mz sc (Suc m)) sc pos p st = Some (Inr (pos', v), st')
             \<and> pos \<le> pos' \<and> pos' \<le> length (toks sc))
       \<and> (\<exists>pos' v st'. call n (run mz sc (Suc m)) sc f pos st = Some (Inr (pos', v), st')
             \<and> pos \<le> pos' \<and> pos' \<le> length (toks sc))"
proof -
  from after_SKIP[OF assms(1,3), of mz m] obtain q st' where
    h: "rule_SKIP n (run mz sc (Suc m)) sc pos st = Some (Inr (q, Str []), st')"
    "pos \<le> q" "\<forall>i. pos \<le> i \<and> i < q \<longrightarrow> skippable sc i"
    by metis
  have q: "q \<le> length (toks sc)"
    using skippable_run_bounded[OF h(3) assms(2)] h(2) assms(2) by auto
  have a: "pos \<le> fst (skip sc pos RE) \<and> fst (skip sc pos RE) \<le> length (toks sc)" for RE
    using skip_bounds[of pos sc RE] assms(2) by simp
  have after: "\<exists>pos' v st'. andThen (rule_SKIP n (run mz sc (Suc m)) sc pos st)
                   (\<lambda>pair s. Some (Inr (g (fst pair)), s)) = Some (Inr (pos', v), st')
             \<and> pos \<le> pos' \<and> pos' \<le> length (toks sc)"
    if "\<And>x. x \<le> length (toks sc) \<Longrightarrow> x \<le> fst (g x) \<and> fst (g x) \<le> length (toks sc)"
    for g :: "nat \<Rightarrow> result"
  proof -
    have "andThen (rule_SKIP n (run mz sc (Suc m)) sc pos st)
                   (\<lambda>pair s. Some (Inr (g (fst pair)), s)) = Some (Inr (fst (g q), snd (g q)), st')"
      by (simp add: h(1))
    moreover have "pos \<le> fst (g q) \<and> fst (g q) \<le> length (toks sc)"
      using that[OF q] h(2) by simp
    ultimately show ?thesis by blast
  qed
  have e: "\<exists>pos' v st'. eat n (run mz sc (Suc m)) sc pos p st = Some (Inr (pos', v), st')
             \<and> pos \<le> pos' \<and> pos' \<le> length (toks sc)" for p
    unfolding eat_def Let_def
    by (rule after) (auto split: element.splits)
  have c: "\<exists>pos' v st'. call n (run mz sc (Suc m)) sc f pos st = Some (Inr (pos', v), st')
             \<and> pos \<le> pos' \<and> pos' \<le> length (toks sc)"
  proof (cases f)
    case F_SPACE
    show ?thesis using a[of SPACE_RE]
      by (simp add: F_SPACE rule_SPACE_def) (metis prod.collapse)
  next
    case F_COMMENT
    show ?thesis using a[of LINE_COMMENT_RE]
      by (simp add: F_COMMENT rule_COMMENT_def) (metis prod.collapse)
  next
    case F_SKIP
    show ?thesis using h q by (simp add: F_SKIP)
  next
    case F_NUMBER
    show ?thesis using e by (simp add: F_NUMBER rule_NUMBER_def)
  next
    case F_STRING
    show ?thesis using e by (simp add: F_STRING rule_STRING_def)
  next
    case F_IDENT
    show ?thesis unfolding F_IDENT call.simps rule_IDENT_def Let_def
      by (rule after) (auto split: element.splits)
  next
    case F_HOLE
    show ?thesis unfolding F_HOLE call.simps rule_HOLE_def Let_def
      by (rule after) (auto split: element.splits)
  next
    case F_EOF
    show ?thesis unfolding F_EOF call.simps rule_EOF_def Let_def
      by (rule after) (auto split: element.splits)
  next
    case (F_rule u)
    then show ?thesis using assms(4) by simp
  qed
  show ?thesis using a e c by blast
qed

theorem scanner_positions_bounded_witness:
  "(0 \<le> fst (skip scanner_space_one 0 SPACE_RE)
      \<and> fst (skip scanner_space_one 0 SPACE_RE) \<le> length (toks scanner_space_one))
   \<and> (\<exists>pos' v st'. eat 3 (run True scanner_space_one (Suc 0)) scanner_space_one 0
                       (PRe NUMBER_RE) new_Packratter = Some (Inr (pos', v), st')
             \<and> 0 \<le> pos' \<and> pos' \<le> length (toks scanner_space_one))
   \<and> (\<exists>pos' v st'. call 3 (run True scanner_space_one (Suc 0)) scanner_space_one F_IDENT 0
                       new_Packratter = Some (Inr (pos', v), st')
             \<and> 0 \<le> pos' \<and> pos' \<le> length (toks scanner_space_one))"
proof -
  have h1: "memo_ok scanner_space_one new_Packratter" by (rule memo_ok_new)
  have h2: "0 \<le> length (toks scanner_space_one)" by simp
  have h3: "length (toks scanner_space_one) - 0 < 3" by (simp add: scanner_space_one_def)
  have h4: "is_method F_IDENT" by simp
  from scanner_positions_bounded[OF h1 h2 h3 h4] show ?thesis .
qed

section \<open>Memoization\<close>

declare run.simps(2) [simp del]

subsection \<open>A larger budget changes nothing that was returned\<close>

lemma andThen_mono:
  assumes "andThen a g = Some x" and "\<And>y. a = Some y \<Longrightarrow> a' = Some y"
    and "\<And>y s z. g y s = Some z \<Longrightarrow> g' y s = Some z"
  shows "andThen a' g' = Some x"
proof (cases a)
  case None
  then show ?thesis using assms(1) by simp
next
  case (Some y)
  obtain o1 s1 where y: "y = (o1, s1)" by (cases y)
  show ?thesis using assms Some y by (cases o1) auto
qed

lemma le_runnerD: "le_runner runf runf' \<Longrightarrow> runf k p nm st = Some x \<Longrightarrow> runf' k p nm st = Some x"
  unfolding le_runner_def by blast

lemma interp_mono:
  assumes "le_runner runf runf'"
  shows "interp runf body st = Some x \<Longrightarrow> interp runf' body st = Some x"
proof (induction body arbitrary: st x)
  case (Return r)
  then show ?case by simp
next
  case (Run k p nm cont)
  show ?case
    using Run.prems
    by (simp, elim andThen_mono) (auto intro: le_runnerD[OF assms] Run.IH[OF rangeI])
qed

lemma rule_SKIP_mono:
  assumes "le_runner runf runf'"
  shows "n \<le> n' \<Longrightarrow> rule_SKIP n runf sc pos st = Some x \<Longrightarrow> rule_SKIP n' runf' sc pos st = Some x"
proof (induction n arbitrary: n' pos st x)
  case 0
  then show ?case by simp
next
  case (Suc n)
  from Suc.prems(1) obtain k where n': "n' = Suc k" "n \<le> k" by (cases n') auto
  show ?case
  proof (cases "pos < length (toks sc)")
    case False
    then show ?thesis using Suc.prems n' by simp
  next
    case True
    show ?thesis
    proof (cases "toks sc ! pos")
      case (Hole h)
      then show ?thesis using Suc.prems n' True by simp
    next
      case (Tok token)
      show ?thesis
      proof (cases "snd (rule_SPACE sc pos) \<noteq> FAIL")
        case sp: True
        then show ?thesis using Suc.prems n' True Tok Suc.IH[OF n'(2)] by (simp add: Let_def)
      next
        case nsp: False
        have "andThen (runf (KFun F_COMMENT) pos ''COMMENT'' st)
                (\<lambda>pair st'. if snd pair \<noteq> FAIL then rule_SKIP n runf sc (fst pair) st'
                             else Some (Inr (pos, Str []), st')) = Some x"
          using Suc.prems True Tok nsp by (simp add: Let_def)
        then have "andThen (runf' (KFun F_COMMENT) pos ''COMMENT'' st)
                (\<lambda>pair st'. if snd pair \<noteq> FAIL then rule_SKIP k runf' sc (fst pair) st'
                             else Some (Inr (pos, Str []), st')) = Some x"
          by (elim andThen_mono) (auto intro: le_runnerD[OF assms] Suc.IH[OF n'(2)] split: if_splits)
        then show ?thesis using n' True Tok nsp by (simp add: Let_def)
      qed
    qed
  qed
qed

lemma after_SKIP_mono:
  assumes "le_runner runf runf'" "n \<le> n'"
    and "andThen (rule_SKIP n runf sc pos st) g = Some x"
  shows "andThen (rule_SKIP n' runf' sc pos st) g = Some x"
  using assms(3) by (elim andThen_mono) (auto intro: rule_SKIP_mono[OF assms(1,2)])

lemma eat_mono:
  assumes "le_runner runf runf'" "n \<le> n'" "eat n runf sc pos p st = Some x"
  shows "eat n' runf' sc pos p st = Some x"
  using assms(3) unfolding eat_def by (rule after_SKIP_mono[OF assms(1,2)])

lemma call_mono:
  assumes "le_runner runf runf'" "n \<le> n'" "call n runf sc f pos st = Some x"
  shows "call n' runf' sc f pos st = Some x"
proof (cases f)
  case F_SKIP
  then show ?thesis using assms(3) rule_SKIP_mono[OF assms(1,2)] by simp
next
  case F_NUMBER
  then show ?thesis using assms(3) eat_mono[OF assms(1,2)] by (simp add: rule_NUMBER_def)
next
  case F_STRING
  then show ?thesis using assms(3) eat_mono[OF assms(1,2)] by (simp add: rule_STRING_def)
next
  case F_IDENT
  show ?thesis using assms(3) unfolding F_IDENT call.simps rule_IDENT_def
    by (rule after_SKIP_mono[OF assms(1,2)])
next
  case F_HOLE
  show ?thesis using assms(3) unfolding F_HOLE call.simps rule_HOLE_def
    by (rule after_SKIP_mono[OF assms(1,2)])
next
  case F_EOF
  show ?thesis using assms(3) unfolding F_EOF call.simps rule_EOF_def
    by (rule after_SKIP_mono[OF assms(1,2)])
next
  case (F_rule u)
  then show ?thesis using assms(3) interp_mono[OF assms(1)] by simp
qed (use assms(3) in simp_all)

lemma run_mono:
  "n \<le> n' \<Longrightarrow> run mz sc n k pos nm st = Some x \<Longrightarrow> run mz sc n' k pos nm st = Some x"
proof (induction n arbitrary: n' k pos nm st x)
  case 0
  then show ?case by simp
next
  case (Suc n)
  from Suc.prems(1) obtain j where n': "n' = Suc j" "n \<le> j" by (cases n') auto
  have le: "le_runner (run mz sc n) (run mz sc j)"
    unfolding le_runner_def using Suc.IH[OF n'(2)] by blast
  show ?case
  proof (cases "mz \<longrightarrow> lookup st pos k = None")
    case True
    have "andThen
               (case k of
                  KFun f \<Rightarrow> call n (run mz sc n) sc f pos (enter st pos k)
                | KUndef \<Rightarrow> Some (Inl (Error (''Rule missing: '' @ nm)), enter st pos k)
                | KPatt p \<Rightarrow> eat n (run mz sc n) sc pos p (enter st pos k))
               (\<lambda>r st4. Some (Inr r, posm_set st4 pos k (Result r))) = Some x"
      using Suc.prems(2) run_miss[OF True] by simp
    then have "andThen
               (case k of
                  KFun f \<Rightarrow> call j (run mz sc j) sc f pos (enter st pos k)
                | KUndef \<Rightarrow> Some (Inl (Error (''Rule missing: '' @ nm)), enter st pos k)
                | KPatt p \<Rightarrow> eat j (run mz sc j) sc pos p (enter st pos k))
               (\<lambda>r st4. Some (Inr r, posm_set st4 pos k (Result r))) = Some x"
      by (elim andThen_mono) (auto split: key.splits intro: call_mono[OF le n'(2)] eat_mono[OF le n'(2)])
    then show ?thesis using run_miss[OF True] n' by simp
  next
    case False
    then obtain e where e: "mz" "lookup st pos k = Some e" by auto
    show ?thesis
      using Suc.prems(2) e n' run_hit[of st pos k _ sc] run_probe[of st pos k sc]
      by (cases e) auto
  qed
qed

lemma le_run: "m \<le> M \<Longrightarrow> le_runner (run mz sc m) (run mz sc M)"
  unfolding le_runner_def using run_mono by blast

lemma run_unique:
  assumes "run mz sc n k pos nm st = Some a" "run mz sc n' k pos nm st = Some b"
  shows "a = b"
  using run_mono[OF _ assms(1), of "max n n'"] run_mono[OF _ assms(2), of "max n n'"] by simp

subsection \<open>The run without memo does not depend on the state\<close>

lemma fst_andThen_cong:
  assumes "map_option fst a = map_option fst a'"
    and "\<And>x s s'. map_option fst (g x s) = map_option fst (g x s')"
  shows "map_option fst (andThen a g) = map_option fst (andThen a' g)"
proof (cases a)
  case None
  then have "a' = None" using assms(1) by simp
  then show ?thesis using None by simp
next
  case (Some y)
  obtain o1 s1 where y: "y = (o1, s1)" by (cases y)
  from assms(1) Some y obtain s1' where a': "a' = Some (o1, s1')" by (cases a') auto
  show ?thesis using Some y a' assms(2) by (cases o1) auto
qed

lemma statelessD:
  "stateless runf \<Longrightarrow> map_option fst (runf k p nm st) = map_option fst (runf k p nm st')"
  unfolding stateless_def by blast

lemma stateless_interp:
  assumes "stateless runf"
  shows "map_option fst (interp runf body st) = map_option fst (interp runf body st')"
proof (induction body arbitrary: st st')
  case (Return r)
  show ?case by simp
next
  case (Run k p nm cont)
  show ?case
    using fst_andThen_cong[OF statelessD[OF assms, of k p nm st st'],
        of "\<lambda>r s. interp runf (cont r) s"] Run.IH[OF rangeI]
    by simp
qed

lemma stateless_rule_SKIP:
  assumes "stateless runf"
  shows "map_option fst (rule_SKIP n runf sc pos st) = map_option fst (rule_SKIP n runf sc pos st')"
proof (induction n arbitrary: pos st st')
  case 0
  show ?case by simp
next
  case (Suc n)
  have c: "map_option fst (andThen (runf (KFun F_COMMENT) pos ''COMMENT'' st)
                (\<lambda>pair s. if snd pair \<noteq> FAIL then rule_SKIP n runf sc (fst pair) s
                           else Some (Inr (pos, Str []), s)))
         = map_option fst (andThen (runf (KFun F_COMMENT) pos ''COMMENT'' st')
                (\<lambda>pair s. if snd pair \<noteq> FAIL then rule_SKIP n runf sc (fst pair) s
                           else Some (Inr (pos, Str []), s)))"
    by (rule fst_andThen_cong[OF statelessD[OF assms]]) (simp add: Suc.IH)
  show ?case
  proof (cases "pos < length (toks sc)")
    case False
    then show ?thesis by simp
  next
    case True
    show ?thesis
    proof (cases "toks sc ! pos")
      case (Hole h)
      then show ?thesis using True by simp
    next
      case (Tok token)
      show ?thesis
        using True Tok c Suc.IH[of "fst (rule_SPACE sc pos)" st st']
        by (cases "snd (rule_SPACE sc pos) \<noteq> FAIL") (simp_all add: Let_def)
    qed
  qed
qed

lemma stateless_after_SKIP:
  assumes "stateless runf"
  shows "map_option fst (andThen (rule_SKIP n runf sc pos st) (\<lambda>pair s. Some (Inr (g pair), s)))
       = map_option fst (andThen (rule_SKIP n runf sc pos st') (\<lambda>pair s. Some (Inr (g pair), s)))"
  by (rule fst_andThen_cong[OF stateless_rule_SKIP[OF assms]]) simp

lemma stateless_eat:
  assumes "stateless runf"
  shows "map_option fst (eat n runf sc pos p st) = map_option fst (eat n runf sc pos p st')"
  unfolding eat_def Let_def by (rule stateless_after_SKIP[OF assms])

lemma stateless_call:
  assumes "stateless runf"
  shows "map_option fst (call n runf sc f pos st) = map_option fst (call n runf sc f pos st')"
proof (cases f)
  case F_SKIP
  then show ?thesis using stateless_rule_SKIP[OF assms] by simp
next
  case F_NUMBER
  then show ?thesis using stateless_eat[OF assms] by (simp add: rule_NUMBER_def)
next
  case F_STRING
  then show ?thesis using stateless_eat[OF assms] by (simp add: rule_STRING_def)
next
  case F_IDENT
  show ?thesis unfolding F_IDENT call.simps rule_IDENT_def Let_def
    by (rule stateless_after_SKIP[OF assms])
next
  case F_HOLE
  show ?thesis unfolding F_HOLE call.simps rule_HOLE_def Let_def
    by (rule stateless_after_SKIP[OF assms])
next
  case F_EOF
  show ?thesis unfolding F_EOF call.simps rule_EOF_def Let_def
    by (rule stateless_after_SKIP[OF assms])
next
  case (F_rule u)
  then show ?thesis using stateless_interp[OF assms] by simp
qed simp_all

text \<open>The body of \<^verbatim>\<open>run\<close> after a miss, without the name.\<close>

lemma run_False_Suc:
  "run False sc (Suc n) k pos nm st
     = andThen
         (case k of
            KFun f \<Rightarrow> call n (run False sc n) sc f pos (enter st pos k)
          | KUndef \<Rightarrow> Some (Inl (Error (''Rule missing: '' @ nm)), enter st pos k)
          | KPatt p \<Rightarrow> eat n (run False sc n) sc pos p (enter st pos k))
         (\<lambda>r st4. Some (Inr r, posm_set st4 pos k (Result r)))"
  by (rule run_miss) simp

lemma stateless_run: "stateless (run False sc m)"
proof (induction m)
  case 0
  show ?case by (simp add: stateless_def)
next
  case (Suc m)
  show ?case
    unfolding stateless_def
  proof (intro allI)
    fix k pos name st st'
    have "map_option fst
            (case k of
               KFun f \<Rightarrow> call m (run False sc m) sc f pos (enter st pos k)
             | KUndef \<Rightarrow> Some (Inl (Error (''Rule missing: '' @ name)), enter st pos k)
             | KPatt p \<Rightarrow> eat m (run False sc m) sc pos p (enter st pos k))
        = map_option fst
            (case k of
               KFun f \<Rightarrow> call m (run False sc m) sc f pos (enter st' pos k)
             | KUndef \<Rightarrow> Some (Inl (Error (''Rule missing: '' @ name)), enter st' pos k)
             | KPatt p \<Rightarrow> eat m (run False sc m) sc pos p (enter st' pos k))"
      using stateless_call[OF Suc] stateless_eat[OF Suc] by (cases k) simp_all
    then show "map_option fst (run False sc (Suc m) k pos name st)
             = map_option fst (run False sc (Suc m) k pos name st')"
      unfolding run_False_Suc by (rule fst_andThen_cong) simp
  qed
qed

lemma andThen_Some_None: "andThen a (\<lambda>r s. Some (f r s)) = None \<longleftrightarrow> a = None"
proof (cases a)
  case (Some y)
  obtain o1 s1 where "y = (o1, s1)" by (cases y)
  then show ?thesis using Some by (cases o1) auto
qed simp

lemma run_False_None:
  "run False sc m k pos nm st = None \<longleftrightarrow> run False sc m k pos nm' st' = None"
proof -
  have "run False sc m k pos nm st = None \<longleftrightarrow> run False sc m k pos nm st' = None"
    using statelessD[OF stateless_run, of sc m k pos nm st st'] by (metis map_option_is_None)
  also have "\<dots> \<longleftrightarrow> run False sc m k pos nm' st' = None"
  proof (cases m)
    case 0
    then show ?thesis by simp
  next
    case (Suc n)
    show ?thesis unfolding Suc run_False_Suc andThen_Some_None by (cases k) simp_all
  qed
  finally show ?thesis .
qed

lemma run_False_result:
  assumes "run False sc m k pos nm st = Some (Inr r, s)"
  shows "\<exists>s'. run False sc m k pos nm' st' = Some (Inr r, s')"
proof -
  have a: "\<exists>s'. run False sc m k pos nm st' = Some (Inr r, s')"
    using statelessD[OF stateless_run, of sc m k pos nm st st'] assms
    by (cases "run False sc m k pos nm st'") auto
  show ?thesis
  proof (cases m)
    case 0
    then show ?thesis using assms by simp
  next
    case (Suc n)
    have "k \<noteq> KUndef" using assms unfolding Suc run_False_Suc by auto
    then show ?thesis using a unfolding Suc run_False_Suc by (cases k) simp_all
  qed
qed

lemma good_intro: "run False sc m k pos nm st = Some (Inr r, s) \<Longrightarrow> good sc k pos r"
  unfolding good_def using run_False_result by blast

lemma good_unique:
  assumes "good sc k pos r" "good sc k pos r'"
  shows "r = r'"
proof -
  from assms obtain m s m' s' where
    a: "run False sc m k pos [] new_Packratter = Some (Inr r, s)"
    and b: "run False sc m' k pos [] new_Packratter = Some (Inr r', s')"
    unfolding good_def by blast
  from run_mono[OF _ a, of "max m m'"] run_mono[OF _ b, of "max m m'"] show ?thesis by simp
qed

lemma run_False_name:
  assumes "run False sc n k pos nm st = Some (Inr r, st')"
  shows "run False sc n k pos nm' st = Some (Inr r, st')"
proof (cases n)
  case 0
  then show ?thesis using assms by simp
next
  case (Suc m)
  have "k \<noteq> KUndef" using assms unfolding Suc run_False_Suc by auto
  then show ?thesis using assms unfolding Suc run_False_Suc by (cases k) simp_all
qed

lemma left_recursion_diverges:
  "run False scanner_x_x m (KFun (F_rule 0)) 0 name st = None"
proof (induction m arbitrary: name st)
  case 0
  show ?case by simp
next
  case (Suc m)
  have r: "rules scanner_x_x u = rule_A" for u by (simp add: scanner_x_x_def)
  show ?case
    using run_miss[of False st 0 "KFun (F_rule 0)" scanner_x_x m name]
    by (simp add: r rule_A_def Suc.IH)
qed

subsection \<open>Relations between two runs\<close>

lemma rel_runnerD:
  "rel_runner R E f g \<Longrightarrow> R s t \<Longrightarrow> rel_out R E (f k p nm s) (g k p nm t)"
  unfolding rel_runner_def by blast

lemma rel_outD:
  "rel_out R E a b \<Longrightarrow> a = Some (x, s)
   \<Longrightarrow> \<exists>t. b = Some (x, t) \<and> (case x of Inr r \<Rightarrow> R s t | Inl e \<Rightarrow> E e s t)"
  unfolding rel_out_def by blast

lemma rel_out_None [simp]: "rel_out R E None b"
  by (simp add: rel_out_def)

lemma rel_out_Inr [simp]: "rel_out R E (Some (Inr r, s)) (Some (Inr r', t)) \<longleftrightarrow> r' = r \<and> R s t"
  by (auto simp: rel_out_def)

lemma rel_out_andThen:
  assumes "rel_out R E a b" and "\<And>x s t. R s t \<Longrightarrow> rel_out R E (f x s) (g x t)"
  shows "rel_out R E (andThen a f) (andThen b g)"
proof (cases a)
  case None
  then show ?thesis by simp
next
  case (Some y)
  obtain o1 s1 where y: "y = (o1, s1)" by (cases y)
  from rel_outD[OF assms(1)] Some y obtain t1 where
    b: "b = Some (o1, t1)" and r: "case o1 of Inr r \<Rightarrow> R s1 t1 | Inl e \<Rightarrow> E e s1 t1"
    by blast
  show ?thesis
  proof (cases o1)
    case (Inl e)
    then show ?thesis using Some y b r by (simp add: rel_out_def)
  next
    case (Inr x)
    then show ?thesis using Some y b r assms(2)[of s1 t1 x] by simp
  qed
qed

lemma rel_interp:
  assumes "rel_runner R E f g"
  shows "R s t \<Longrightarrow> rel_out R E (interp f body s) (interp g body t)"
proof (induction body arbitrary: s t)
  case (Return r)
  then show ?case by simp
next
  case (Run k p nm cont)
  show ?case
    unfolding interp.simps
    by (rule rel_out_andThen[OF rel_runnerD[OF assms Run.prems]]) (rule Run.IH[OF rangeI])
qed

lemma rel_rule_SKIP:
  assumes "rel_runner R E f g"
  shows "R s t \<Longrightarrow> rel_out R E (rule_SKIP n f sc pos s) (rule_SKIP n g sc pos t)"
proof (induction n arbitrary: pos s t)
  case 0
  show ?case by simp
next
  case (Suc n)
  have c: "rel_out R E
             (andThen (f (KFun F_COMMENT) pos ''COMMENT'' s)
                (\<lambda>pair s'. if snd pair \<noteq> FAIL then rule_SKIP n f sc (fst pair) s'
                             else Some (Inr (pos, Str []), s')))
             (andThen (g (KFun F_COMMENT) pos ''COMMENT'' t)
                (\<lambda>pair s'. if snd pair \<noteq> FAIL then rule_SKIP n g sc (fst pair) s'
                             else Some (Inr (pos, Str []), s')))"
    by (rule rel_out_andThen[OF rel_runnerD[OF assms Suc.prems]]) (simp add: Suc.IH)
  show ?case
  proof (cases "pos < length (toks sc)")
    case False
    then show ?thesis using Suc.prems by simp
  next
    case True
    show ?thesis
    proof (cases "toks sc ! pos")
      case (Hole h)
      then show ?thesis using True Suc.prems by simp
    next
      case (Tok token)
      show ?thesis
        using True Tok c Suc.IH[OF Suc.prems, of "fst (rule_SPACE sc pos)"]
        by (cases "snd (rule_SPACE sc pos) \<noteq> FAIL") (simp_all add: Let_def)
    qed
  qed
qed

lemma rel_after_SKIP:
  assumes "rel_runner R E f g" "R s t"
  shows "rel_out R E (andThen (rule_SKIP n f sc pos s) (\<lambda>pair s. Some (Inr (h pair), s)))
                     (andThen (rule_SKIP n g sc pos t) (\<lambda>pair s. Some (Inr (h pair), s)))"
  by (rule rel_out_andThen[OF rel_rule_SKIP[OF assms]]) simp

lemma rel_eat:
  assumes "rel_runner R E f g" "R s t"
  shows "rel_out R E (eat n f sc pos p s) (eat n g sc pos p t)"
  unfolding eat_def Let_def by (rule rel_after_SKIP[OF assms])

lemma rel_call:
  assumes "rel_runner R E f g" "R s t"
  shows "rel_out R E (call n f sc fn pos s) (call n g sc fn pos t)"
proof (cases fn)
  case F_SPACE
  then show ?thesis using assms(2) by simp
next
  case F_COMMENT
  then show ?thesis using assms(2) by simp
next
  case F_SKIP
  then show ?thesis using rel_rule_SKIP[OF assms] by simp
next
  case F_NUMBER
  then show ?thesis using rel_eat[OF assms] by (simp add: rule_NUMBER_def)
next
  case F_STRING
  then show ?thesis using rel_eat[OF assms] by (simp add: rule_STRING_def)
next
  case F_IDENT
  show ?thesis unfolding F_IDENT call.simps rule_IDENT_def Let_def
    by (rule rel_after_SKIP[OF assms])
next
  case F_HOLE
  show ?thesis unfolding F_HOLE call.simps rule_HOLE_def Let_def
    by (rule rel_after_SKIP[OF assms])
next
  case F_EOF
  show ?thesis unfolding F_EOF call.simps rule_EOF_def Let_def
    by (rule rel_after_SKIP[OF assms])
next
  case (F_rule u)
  then show ?thesis using rel_interp[OF assms] by simp
qed

lemma rel_body:
  assumes "rel_runner R E f g" "R s t" "E (Error (''Rule missing: '' @ nm)) s t"
  shows "rel_out R E (run_body n f sc k pos nm s) (run_body n g sc k pos nm t)"
proof (cases k)
  case (KFun fn)
  then show ?thesis using rel_call[OF assms(1,2)] by (simp add: run_body_def)
next
  case (KPatt p)
  then show ?thesis using rel_eat[OF assms(1,2)] by (simp add: run_body_def)
next
  case KUndef
  then show ?thesis using assms(3) by (simp add: run_body_def rel_out_def)
qed

lemma run_miss_body:
  assumes "mz \<longrightarrow> lookup st pos k = None"
  shows "run mz sc (Suc n) k pos name st
           = andThen (run_body n (run mz sc n) sc k pos name (enter st pos k))
               (\<lambda>r st4. Some (Inr r, posm_set st4 pos k (Result r)))"
  unfolding run_body_def by (rule run_miss[OF assms])

lemma rel_out_exit:
  assumes "rel_out R' E a b"
    and "\<And>r s t. a = Some (Inr r, s) \<Longrightarrow> b = Some (Inr r, t) \<Longrightarrow> R' s t
           \<Longrightarrow> R (posm_set s pos k (Result r)) (posm_set t pos k (Result r))"
  shows "rel_out R E (andThen a (\<lambda>r st4. Some (Inr r, posm_set st4 pos k (Result r))))
                     (andThen b (\<lambda>r st4. Some (Inr r, posm_set st4 pos k (Result r))))"
proof (cases a)
  case None
  then show ?thesis by simp
next
  case (Some y)
  obtain o1 s1 where y: "y = (o1, s1)" by (cases y)
  from rel_outD[OF assms(1)] Some y obtain t1 where
    b: "b = Some (o1, t1)" and r: "case o1 of Inr r \<Rightarrow> R' s1 t1 | Inl e \<Rightarrow> E e s1 t1"
    by blast
  show ?thesis
  proof (cases o1)
    case (Inl e)
    then show ?thesis using Some y b r by (simp add: rel_out_def)
  next
    case (Inr x)
    then show ?thesis using Some y b r assms(2)[of x s1 t1] by simp
  qed
qed

lemma preserves_body:
  assumes "\<And>k p nm. preserves I (runf k p nm)"
  shows "preserves I (run_body n runf sc k pos nm)"
proof (cases k)
  case (KFun f)
  then show ?thesis using preserves_call[of I runf, OF assms] by (simp add: run_body_def preserves_def)
next
  case (KPatt p)
  then show ?thesis using preserves_eat[of I runf, OF assms] by (simp add: run_body_def preserves_def)
next
  case KUndef
  then show ?thesis by (simp add: run_body_def preserves_def)
qed

lemma run_cases:
  obtains (hit) r0 where "mz" "lookup st pos k = Some (Result r0)"
    | (probe) "mz" "lookup st pos k = Some LEFT_RECUR"
    | (miss) "mz \<longrightarrow> lookup st pos k = None"
proof (cases "mz \<longrightarrow> lookup st pos k = None")
  case True
  then show ?thesis using miss by blast
next
  case False
  then obtain e where e: "mz" "lookup st pos k = Some e" by auto
  show ?thesis using e hit probe by (cases e) auto
qed

lemma run_preserves:
  assumes en: "\<And>st pos k. I st \<Longrightarrow> I (enter st pos k)"
    and ex: "\<And>st pos k r. I st \<Longrightarrow> I (posm_set st pos k (Result r))"
    and ins: "\<And>st pos. mz \<Longrightarrow> I st \<Longrightarrow> I (install st pos)"
    and hit: "\<And>st. mz \<Longrightarrow> I st \<Longrightarrow> I (st\<lparr>hits := hits st + 1\<rparr>)"
  shows "preserves I (run mz sc n k pos nm)"
proof (induction n arbitrary: k pos nm)
  case 0
  show ?case by (simp add: preserves_def)
next
  case (Suc n)
  show ?case
    unfolding preserves_def
  proof (intro allI impI)
    fix st x st'
    assume I: "I st" and r: "run mz sc (Suc n) k pos nm st = Some (x, st')"
    show "I st'"
    proof (cases rule: run_cases[of mz st pos k])
      case (hit r0)
      then show ?thesis using r I run_hit[OF hit(2), of sc n nm] ins[OF hit(1) I, of pos]
          assms(4)[OF hit(1), of "install st pos"] by auto
    next
      case probe
      then show ?thesis using r I run_probe[OF probe(2), of sc n nm] ins[OF probe(1) I, of pos]
        by auto
    next
      case miss
      have pb: "preserves I (run_body n (run mz sc n) sc k pos nm)"
        by (rule preserves_body) (rule Suc.IH)
      have "preserves I (\<lambda>st3. andThen (run_body n (run mz sc n) sc k pos nm st3)
                (\<lambda>r st4. Some (Inr r, posm_set st4 pos k (Result r))))"
        by (rule preserves_andThen[OF pb]) (simp add: preserves_def ex)
      from preservesD[OF this en[OF I, of pos k]] r show ?thesis
        unfolding run_miss_body[OF miss] by blast
    qed
  qed
qed

subsection \<open>What the memo returns, the run without memo returns\<close>

lemma memo_sound_new: "memo_sound sc new_Packratter"
  by (simp add: memo_sound_def)

lemma memo_sound_lookup:
  assumes "memo_sound sc st"
    and "\<And>p k r. lookup st' p k = Some (Result r) \<Longrightarrow> lookup st p k = Some (Result r) \<or> good sc k p r"
  shows "memo_sound sc st'"
  using assms unfolding memo_sound_def by blast

lemma leftRecursion_Inr [simp]: "\<not> leftRecursion (Inr r)"
  by (simp add: leftRecursion_def)

lemma andThen_Some:
  assumes "andThen a g = Some (x, s')"
  obtains (err) e where "a = Some (Inl e, s')" "x = Inl e"
    | (ok) y s where "a = Some (Inr y, s)" "g y s = Some (x, s')"
proof (cases a)
  case None
  then show ?thesis using assms by simp
next
  case (Some z)
  obtain o1 s1 where z: "z = (o1, s1)" by (cases z)
  show ?thesis using assms Some z err ok by (cases o1) auto
qed

lemma sound_runnerD:
  "sound_runner sc runT \<Longrightarrow> memo_sound sc st \<Longrightarrow> runT k p nm st = Some (x, st')
   \<Longrightarrow> \<not> leftRecursion x
   \<Longrightarrow> (\<forall>st0. \<exists>m s. run False sc m k p nm st0 = Some (x, s))
       \<and> (\<forall>r. x = Inr r \<longrightarrow> memo_sound sc st')"
  unfolding sound_runner_def by blast

lemma sim_interp:
  assumes H: "sound_runner sc runT"
  shows "memo_sound sc st \<Longrightarrow> interp runT body st = Some (x, st') \<Longrightarrow> \<not> leftRecursion x
         \<Longrightarrow> (\<forall>st0. \<exists>m st0'. interp (run False sc m) body st0 = Some (x, st0'))
             \<and> (\<forall>r. x = Inr r \<longrightarrow> memo_sound sc st')"
proof (induction body arbitrary: st)
  case (Return r0)
  then show ?case by auto
next
  case (Run k p nm cont)
  from Run.prems(2) have
    "andThen (runT k p nm st) (\<lambda>r s. interp runT (cont r) s) = Some (x, st')" by simp
  then show ?case
  proof (cases rule: andThen_Some)
    case (err e)
    from sound_runnerD[OF H Run.prems(1) err(1)] Run.prems(3) err(2)
    have "\<forall>st0. \<exists>m s. run False sc m k p nm st0 = Some (Inl e, s)" by simp
    then have "\<forall>st0. \<exists>m st0'. interp (run False sc m) (Run k p nm cont) st0 = Some (x, st0')"
      using err(2) by (metis andThen.simps(2) interp.simps(2))
    then show ?thesis using err(2) by simp
  next
    case (ok r1 s1)
    from sound_runnerD[OF H Run.prems(1) ok(1)] have
      s1: "memo_sound sc s1" and g: "\<forall>st0. \<exists>m s. run False sc m k p nm st0 = Some (Inr r1, s)"
      by simp_all
    from Run.IH[OF rangeI s1 ok(2) Run.prems(3)] have
      st': "\<forall>r. x = Inr r \<longrightarrow> memo_sound sc st'"
      and c: "\<forall>st0. \<exists>m st0'. interp (run False sc m) (cont r1) st0 = Some (x, st0')"
      by auto
    have "\<exists>m st0'. interp (run False sc m) (Run k p nm cont) st0 = Some (x, st0')" for st0
    proof -
      from g obtain m1 s01 where m1: "run False sc m1 k p nm st0 = Some (Inr r1, s01)" by blast
      from c obtain m2 s02 where m2: "interp (run False sc m2) (cont r1) s01 = Some (x, s02)"
        by blast
      let ?M = "max m1 m2"
      have "run False sc ?M k p nm st0 = Some (Inr r1, s01)"
        using run_mono[OF _ m1, of ?M] by simp
      moreover have "interp (run False sc ?M) (cont r1) s01 = Some (x, s02)"
        using interp_mono[OF le_run m2, of ?M] by simp
      ultimately have "interp (run False sc ?M) (Run k p nm cont) st0 = Some (x, s02)"
        by simp
      then show ?thesis by blast
    qed
    with st' show ?thesis by blast
  qed
qed

lemma sim_rule_SKIP:
  assumes H: "sound_runner sc runT"
  shows "memo_sound sc st \<Longrightarrow> rule_SKIP n runT sc pos st = Some (x, st') \<Longrightarrow> \<not> leftRecursion x
         \<Longrightarrow> (\<forall>st0. \<exists>m st0'. rule_SKIP m (run False sc m) sc pos st0 = Some (x, st0'))
             \<and> (\<forall>r. x = Inr r \<longrightarrow> memo_sound sc st')"
proof (induction n arbitrary: pos st)
  case 0
  then show ?case by simp
next
  case (Suc n)
  have now: "\<forall>st0. \<exists>m st0'. rule_SKIP m (run False sc m) sc pos st0 = Some (Inr (pos, Str []), st0')"
    if "\<not> pos < length (toks sc) \<or> (\<exists>h. toks sc ! pos = Hole h)"
  proof
    fix st0
    have "rule_SKIP (Suc 0) (run False sc (Suc 0)) sc pos st0 = Some (Inr (pos, Str []), st0)"
      using that by auto
    then show "\<exists>m st0'. rule_SKIP m (run False sc m) sc pos st0 = Some (Inr (pos, Str []), st0')"
      by blast
  qed
  show ?case
  proof (cases "pos < length (toks sc)")
    case False
    then show ?thesis using Suc.prems now by auto
  next
    case True
    show ?thesis
    proof (cases "toks sc ! pos")
      case (Hole h)
      then show ?thesis using Suc.prems now True by auto
    next
      case (Tok token)
      show ?thesis
      proof (cases "snd (rule_SPACE sc pos) \<noteq> FAIL")
        case sp: True
        then have "rule_SKIP n runT sc (fst (rule_SPACE sc pos)) st = Some (x, st')"
          using Suc.prems(2) True Tok by (simp add: Let_def)
        from Suc.IH[OF Suc.prems(1) this Suc.prems(3)] have
          st': "\<forall>r. x = Inr r \<longrightarrow> memo_sound sc st'"
          and c: "\<forall>st0. \<exists>m st0'. rule_SKIP m (run False sc m) sc (fst (rule_SPACE sc pos)) st0
                      = Some (x, st0')"
          by auto
        have "\<exists>m st0'. rule_SKIP m (run False sc m) sc pos st0 = Some (x, st0')" for st0
        proof -
          from c obtain m s where
            m: "rule_SKIP m (run False sc m) sc (fst (rule_SPACE sc pos)) st0 = Some (x, s)"
            by blast
          have "rule_SKIP m (run False sc (Suc m)) sc (fst (rule_SPACE sc pos)) st0 = Some (x, s)"
            using rule_SKIP_mono[OF le_run _ m, of "Suc m" m] by simp
          then have "rule_SKIP (Suc m) (run False sc (Suc m)) sc pos st0 = Some (x, s)"
            using True Tok sp by (simp add: Let_def)
          then show ?thesis by blast
        qed
        with st' show ?thesis by blast
      next
        case nsp: False
        let ?g = "\<lambda>runf k (pair :: result) s.
                     if snd pair \<noteq> FAIL then rule_SKIP k runf sc (fst pair) s
                     else Some (Inr (pos, Str []), s)"
        have step: "rule_SKIP (Suc M) (run False sc (Suc M)) sc pos st0
                      = andThen (run False sc (Suc M) (KFun F_COMMENT) pos ''COMMENT'' st0)
                          (?g (run False sc (Suc M)) M)"
          for M st0
          using True Tok nsp by (simp add: Let_def)
        have "andThen (runT (KFun F_COMMENT) pos ''COMMENT'' st) (?g runT n) = Some (x, st')"
          using Suc.prems(2) True Tok nsp by (simp add: Let_def)
        then show ?thesis
        proof (cases rule: andThen_Some)
          case (err e)
          from sound_runnerD[OF H Suc.prems(1) err(1)] Suc.prems(3) err(2)
          have g: "\<forall>st0. \<exists>m s. run False sc m (KFun F_COMMENT) pos ''COMMENT'' st0 = Some (Inl e, s)"
            by simp
          have "\<exists>m st0'. rule_SKIP m (run False sc m) sc pos st0 = Some (x, st0')" for st0
          proof -
            from g obtain m1 s01 where
              m1: "run False sc m1 (KFun F_COMMENT) pos ''COMMENT'' st0 = Some (Inl e, s01)"
              by blast
            have "run False sc (Suc m1) (KFun F_COMMENT) pos ''COMMENT'' st0 = Some (Inl e, s01)"
              using run_mono[OF _ m1, of "Suc m1"] by simp
            then have "rule_SKIP (Suc m1) (run False sc (Suc m1)) sc pos st0 = Some (x, s01)"
              unfolding step using err(2) by simp
            then show ?thesis by blast
          qed
          then show ?thesis using err(2) by simp
        next
          case (ok r1 s1)
          from sound_runnerD[OF H Suc.prems(1) ok(1)] have s1: "memo_sound sc s1"
            and g: "\<forall>st0. \<exists>m s. run False sc m (KFun F_COMMENT) pos ''COMMENT'' st0 = Some (Inr r1, s)"
            by simp_all
          show ?thesis
          proof (cases "snd r1 \<noteq> FAIL")
            case c1: True
            then have "rule_SKIP n runT sc (fst r1) s1 = Some (x, st')" using ok(2) by simp
            from Suc.IH[OF s1 this Suc.prems(3)] have
              st': "\<forall>r. x = Inr r \<longrightarrow> memo_sound sc st'"
              and c: "\<forall>st0. \<exists>m st0'. rule_SKIP m (run False sc m) sc (fst r1) st0 = Some (x, st0')"
              by auto
            have "\<exists>m st0'. rule_SKIP m (run False sc m) sc pos st0 = Some (x, st0')" for st0
            proof -
              from g obtain m1 s01 where
                m1: "run False sc m1 (KFun F_COMMENT) pos ''COMMENT'' st0 = Some (Inr r1, s01)"
                by blast
              from c obtain m2 s02 where
                m2: "rule_SKIP m2 (run False sc m2) sc (fst r1) s01 = Some (x, s02)" by blast
              let ?M = "max m1 m2"
              have r1: "run False sc (Suc ?M) (KFun F_COMMENT) pos ''COMMENT'' st0 = Some (Inr r1, s01)"
                using run_mono[OF _ m1, of "Suc ?M"] by simp
              have "rule_SKIP ?M (run False sc (Suc ?M)) sc (fst r1) s01 = Some (x, s02)"
                using rule_SKIP_mono[OF le_run _ m2, of "Suc ?M" ?M] by simp
              then have "rule_SKIP (Suc ?M) (run False sc (Suc ?M)) sc pos st0 = Some (x, s02)"
                unfolding step using r1 c1 by simp
              then show ?thesis by blast
            qed
            with st' show ?thesis by blast
          next
            case c2: False
            then have e: "x = Inr (pos, Str [])" "st' = s1" using ok(2) by auto
            have "\<exists>m st0'. rule_SKIP m (run False sc m) sc pos st0 = Some (x, st0')" for st0
            proof -
              from g obtain m1 s01 where
                m1: "run False sc m1 (KFun F_COMMENT) pos ''COMMENT'' st0 = Some (Inr r1, s01)"
                by blast
              have r1: "run False sc (Suc m1) (KFun F_COMMENT) pos ''COMMENT'' st0 = Some (Inr r1, s01)"
                using run_mono[OF _ m1, of "Suc m1"] by simp
              have "rule_SKIP (Suc m1) (run False sc (Suc m1)) sc pos st0 = Some (x, s01)"
                unfolding step using r1 c2 e by simp
              then show ?thesis by blast
            qed
            with s1 e show ?thesis by blast
          qed
        qed
      qed
    qed
  qed
qed

lemma sim_after_SKIP:
  assumes H: "sound_runner sc runT"
    and "memo_sound sc st"
    and "andThen (rule_SKIP n runT sc pos st) (\<lambda>pair s. Some (Inr (g pair), s)) = Some (x, st')"
    and "\<not> leftRecursion x"
  shows "(\<forall>st0. \<exists>m st0'. andThen (rule_SKIP m (run False sc m) sc pos st0)
                               (\<lambda>pair s. Some (Inr (g pair), s)) = Some (x, st0'))
         \<and> (\<forall>r. x = Inr r \<longrightarrow> memo_sound sc st')"
  using assms(3)
proof (cases rule: andThen_Some)
  case (err e)
  from sim_rule_SKIP[OF H assms(2) err(1)] assms(4) err(2)
  have "\<forall>st0. \<exists>m st0'. rule_SKIP m (run False sc m) sc pos st0 = Some (Inl e, st0')" by simp
  then have "\<forall>st0. \<exists>m st0'. andThen (rule_SKIP m (run False sc m) sc pos st0)
                               (\<lambda>pair s. Some (Inr (g pair), s)) = Some (x, st0')"
    using err(2) by (metis andThen.simps(2))
  then show ?thesis using err(2) by simp
next
  case (ok r1 s1)
  then have e: "x = Inr (g r1)" "st' = s1" by auto
  from sim_rule_SKIP[OF H assms(2) ok(1)] have
    st': "memo_sound sc s1"
    and c: "\<forall>st0. \<exists>m st0'. rule_SKIP m (run False sc m) sc pos st0 = Some (Inr r1, st0')"
    by simp_all
  have "\<forall>st0. \<exists>m st0'. andThen (rule_SKIP m (run False sc m) sc pos st0)
                               (\<lambda>pair s. Some (Inr (g pair), s)) = Some (x, st0')"
    using c e(1) by (metis andThen.simps(3))
  with st' e show ?thesis by blast
qed

lemma sim_eat:
  assumes H: "sound_runner sc runT"
    and "memo_sound sc st" and "eat n runT sc pos p st = Some (x, st')" and "\<not> leftRecursion x"
  shows "(\<forall>st0. \<exists>m st0'. eat m (run False sc m) sc pos p st0 = Some (x, st0'))
         \<and> (\<forall>r. x = Inr r \<longrightarrow> memo_sound sc st')"
  using assms(3) unfolding eat_def Let_def by (rule sim_after_SKIP[OF H assms(2) _ assms(4)])

lemma sim_call:
  assumes H: "sound_runner sc runT"
    and "memo_sound sc st" and "call n runT sc f pos st = Some (x, st')" and "\<not> leftRecursion x"
  shows "(\<forall>st0. \<exists>m st0'. call m (run False sc m) sc f pos st0 = Some (x, st0'))
         \<and> (\<forall>r. x = Inr r \<longrightarrow> memo_sound sc st')"
proof (cases f)
  case F_SPACE
  then show ?thesis using assms(2,3) by auto
next
  case F_COMMENT
  then show ?thesis using assms(2,3) by auto
next
  case F_SKIP
  then show ?thesis using assms(3) sim_rule_SKIP[OF H assms(2) _ assms(4)] by simp
next
  case F_NUMBER
  then show ?thesis using assms(3) sim_eat[OF H assms(2) _ assms(4)] by (simp add: rule_NUMBER_def)
next
  case F_STRING
  then show ?thesis using assms(3) sim_eat[OF H assms(2) _ assms(4)] by (simp add: rule_STRING_def)
next
  case F_IDENT
  show ?thesis using assms(3) unfolding F_IDENT call.simps rule_IDENT_def Let_def
    by (rule sim_after_SKIP[OF H assms(2) _ assms(4)])
next
  case F_HOLE
  show ?thesis using assms(3) unfolding F_HOLE call.simps rule_HOLE_def Let_def
    by (rule sim_after_SKIP[OF H assms(2) _ assms(4)])
next
  case F_EOF
  show ?thesis using assms(3) unfolding F_EOF call.simps rule_EOF_def Let_def
    by (rule sim_after_SKIP[OF H assms(2) _ assms(4)])
next
  case (F_rule u)
  then show ?thesis using assms(3) sim_interp[OF H assms(2) _ assms(4)] by simp
qed

lemma sim_body:
  assumes H: "sound_runner sc runT"
    and "memo_sound sc st" and "run_body n runT sc k pos nm st = Some (x, st')" and "\<not> leftRecursion x"
  shows "(\<forall>st0. \<exists>m st0'. run_body m (run False sc m) sc k pos nm st0 = Some (x, st0'))
         \<and> (\<forall>r. x = Inr r \<longrightarrow> memo_sound sc st')"
proof (cases k)
  case (KFun f)
  then show ?thesis using assms(3) sim_call[OF H assms(2) _ assms(4)] by (simp add: run_body_def)
next
  case (KPatt p)
  then show ?thesis using assms(3) sim_eat[OF H assms(2) _ assms(4)] by (simp add: run_body_def)
next
  case KUndef
  then show ?thesis using assms(3) by (auto simp: run_body_def)
qed

lemma run_sound:
  "memo_sound sc st \<Longrightarrow> run True sc n k pos nm st = Some (x, st') \<Longrightarrow> \<not> leftRecursion x
   \<Longrightarrow> (\<forall>st0. \<exists>m s. run False sc m k pos nm st0 = Some (x, s))
       \<and> (\<forall>r. x = Inr r \<longrightarrow> memo_sound sc st')"
proof (induction n arbitrary: k pos nm st x st')
  case 0
  then show ?case by simp
next
  case (Suc n)
  have H: "sound_runner sc (run True sc n)"
    unfolding sound_runner_def using Suc.IH by blast
  show ?case
  proof (cases "lookup st pos k")
    case (Some e)
    show ?thesis
    proof (cases e)
      case LEFT_RECUR
      then show ?thesis using Suc.prems(2,3) Some run_probe[of st pos k sc n nm]
        by (auto simp: leftRecursion_def)
    next
      case (Result r0)
      then have e: "x = Inr r0" "st' = (install st pos)\<lparr>hits := hits (install st pos) + 1\<rparr>"
        using Suc.prems(2) Some run_hit[of st pos k r0 sc n nm] by auto
      have "good sc k pos r0"
        using Suc.prems(1) Some Result unfolding memo_sound_def by blast
      then have "\<forall>st0. \<exists>m s. run False sc m k pos nm st0 = Some (x, s)"
        unfolding good_def e by blast
      moreover have "memo_sound sc st'"
        unfolding e using Suc.prems(1) by (rule memo_sound_lookup) auto
      ultimately show ?thesis by blast
    qed
  next
    case None
    let ?fin = "\<lambda>r st4. Some (Inr r :: outcome, posm_set st4 pos k (Result r))"
    have r': "andThen (run_body n (run True sc n) sc k pos nm (enter st pos k)) ?fin = Some (x, st')"
      using Suc.prems(2) run_miss_body[of True st pos k sc n nm] None by simp
    have ok3: "memo_sound sc (enter st pos k)"
      using Suc.prems(1) by (rule memo_sound_lookup) (auto split: if_splits)
    from r' show ?thesis
    proof (cases rule: andThen_Some)
      case (err e)
      from sim_body[OF H ok3 err(1)] Suc.prems(3) err(2) have
        c: "\<forall>st0. \<exists>m st0'. run_body m (run False sc m) sc k pos nm st0 = Some (Inl e, st0')"
        by simp
      have "\<exists>m s. run False sc m k pos nm st0 = Some (x, s)" for st0
      proof -
        from c obtain m s where
          "run_body m (run False sc m) sc k pos nm (enter st0 pos k) = Some (Inl e, s)" by blast
        then have "run False sc (Suc m) k pos nm st0 = Some (Inl e, s)"
          unfolding run_miss_body[of False, simplified] by simp
        then show ?thesis using err(2) by blast
      qed
      then show ?thesis using err(2) by simp
    next
      case (ok r s4)
      then have e: "x = Inr r" "st' = posm_set s4 pos k (Result r)" by auto
      from sim_body[OF H ok3 ok(1)] have
        s4: "memo_sound sc s4"
        and c: "\<forall>st0. \<exists>m st0'. run_body m (run False sc m) sc k pos nm st0 = Some (Inr r, st0')"
        by simp_all
      have f: "\<exists>m s. run False sc m k pos nm st0 = Some (x, s)" for st0
      proof -
        from c obtain m s where
          "run_body m (run False sc m) sc k pos nm (enter st0 pos k) = Some (Inr r, s)" by blast
        then have "run False sc (Suc m) k pos nm st0 = Some (Inr r, posm_set s pos k (Result r))"
          unfolding run_miss_body[of False, simplified] by simp
        then show ?thesis using e(1) by blast
      qed
      from f[of st] obtain m s where "run False sc m k pos nm st = Some (Inr r, s)"
        using e(1) by blast
      then have g: "good sc k pos r" by (rule good_intro)
      have "memo_sound sc st'"
        unfolding e
      proof (rule memo_sound_lookup[OF s4])
        fix p k' r'
        assume "lookup (posm_set s4 pos k (Result r)) p k' = Some (Result r')"
        then show "lookup s4 p k' = Some (Result r') \<or> good sc k' p r'"
          using g by (cases "p = pos \<and> k' = k") auto
      qed
      with f show ?thesis by blast
    qed
  qed
qed

subsection \<open>The run without memo never throws the error of left recursion\<close>

lemma run_False_no_leftRecursion_rel:
  "rel_runner (\<lambda>s t. t = s) (\<lambda>e s t. t = s \<and> \<not> leftRecursion (Inl e))
     (run False sc n) (run False sc n)"
proof (induction n)
  case 0
  show ?case by (simp add: rel_runner_def)
next
  case (Suc n)
  show ?case
    unfolding rel_runner_def
  proof (intro allI impI)
    fix k pos name s t :: Packratter
    fix k :: key and pos :: nat and name :: string
    assume ts: "t = s"
    have b: "rel_out (\<lambda>s t. t = s) (\<lambda>e s t. t = s \<and> \<not> leftRecursion (Inl e))
               (run_body n (run False sc n) sc k pos name (enter s pos k))
               (run_body n (run False sc n) sc k pos name (enter s pos k))"
      by (rule rel_body[OF Suc]) (simp_all add: leftRecursion_def)
    show "rel_out (\<lambda>s t. t = s) (\<lambda>e s t. t = s \<and> \<not> leftRecursion (Inl e))
            (run False sc (Suc n) k pos name s) (run False sc (Suc n) k pos name t)"
      unfolding run_miss_body[of False, simplified] ts
      by (rule rel_out_exit[OF b]) simp
  qed
qed

lemma run_False_no_leftRecursion:
  assumes "run False sc n k pos nm st = Some (x, st')"
  shows "\<not> leftRecursion x"
  using rel_outD[OF rel_runnerD[OF run_False_no_leftRecursion_rel, of st st sc n k pos nm] assms]
  by (cases x) auto

subsection \<open>The memo as a list\<close>

lemma alist_ext:
  "distinct (map fst xs) \<Longrightarrow> map fst xs = map fst ys \<Longrightarrow> (\<forall>k. map_of xs k = map_of ys k)
   \<Longrightarrow> xs = ys"
proof (induction xs arbitrary: ys)
  case Nil
  then show ?case by simp
next
  case (Cons x xs)
  from Cons.prems(2) obtain y ys' where ys: "ys = y # ys'" by (cases ys) auto
  have f: "fst x = fst y" "map fst xs = map fst ys'" using Cons.prems(2) ys by auto
  have "map_of (x # xs) (fst x) = map_of (y # ys') (fst x)" using Cons.prems(3) ys by blast
  then have xy: "x = y" using f(1) by (cases x; cases y) auto
  have n: "fst x \<notin> set (map fst xs)" using Cons.prems(1) by simp
  have "\<forall>k. map_of xs k = map_of ys' k"
  proof
    fix k
    show "map_of xs k = map_of ys' k"
    proof (cases "k = fst x")
      case True
      have "map_of xs k = None" using n True by (simp add: map_of_eq_None_iff)
      moreover have "map_of ys' k = None" using n True f(2) by (simp add: map_of_eq_None_iff)
      ultimately show ?thesis by simp
    next
      case False
      then show ?thesis using Cons.prems(3)[rule_format, of k] ys xy
        by (cases x) (auto split: if_splits)
    qed
  qed
  then have "xs = ys'" using Cons.IH f(2) Cons.prems(1) by simp
  then show ?case using ys xy by simp
qed

lemma posm_of_member:
  "distinct (map fst (memo st)) \<Longrightarrow> (p, pm) \<in> set (memo st) \<Longrightarrow> posm_of st p = pm"
  by (simp add: posm_of_def)

lemma memo_ext:
  assumes d: "distinct_memo s" and sh: "shape s = shape t"
    and lk: "\<forall>p k. lookup s p k = lookup t p k"
  shows "memo s = memo t"
proof (rule nth_equalityI)
  have "length (shape s) = length (shape t)" using sh by simp
  then show len: "length (memo s) = length (memo t)" by (simp add: shape_def)
  have keys: "map fst (memo s) = map fst (memo t)"
  proof -
    have "map fst (shape s) = map fst (shape t)" using sh by simp
    then show ?thesis by (simp add: shape_def comp_def)
  qed
  fix i assume i: "i < length (memo s)"
  obtain p pm where x: "memo s ! i = (p, pm)" by (cases "memo s ! i")
  obtain p' pm' where y: "memo t ! i = (p', pm')" by (cases "memo t ! i")
  have e: "shape s ! i = shape t ! i" using sh by simp
  have si: "shape s ! i = (p, map fst pm)" using i x by (simp add: shape_def)
  have ti: "shape t ! i = (p', map fst pm')" using i y len by (simp add: shape_def)
  have pp: "p' = p" and km: "map fst pm = map fst pm'" using e si ti by auto
  have "memo s ! i \<in> set (memo s)" using i by (rule nth_mem)
  then have ms: "(p, pm) \<in> set (memo s)" using x by simp
  have "memo t ! i \<in> set (memo t)" using i len by (intro nth_mem) simp
  then have mt: "(p, pm') \<in> set (memo t)" using y pp by simp
  have ds: "distinct (map fst (memo s))" "distinct (map fst pm)"
    using d ms unfolding distinct_memo_def by auto
  have dt: "distinct (map fst (memo t))" using ds(1) keys by simp
  have po: "posm_of s p = pm" "posm_of t p = pm'"
    using posm_of_member[OF ds(1) ms] posm_of_member[OF dt mt] by auto
  have "\<forall>k. map_of pm k = map_of pm' k"
  proof
    fix k
    show "map_of pm k = map_of pm' k"
      using lk[rule_format, of p k] po by (simp add: lookup_def)
  qed
  then have "pm = pm'" using alist_ext[OF ds(2) km] by simp
  then show "memo s ! i = memo t ! i" using x y pp by simp
qed

lemma lookup_cong: "memo s = memo t \<Longrightarrow> lookup s p k = lookup t p k"
  by (simp add: lookup_def posm_of_def)

lemma memo_enter_cong: "memo s = memo t \<Longrightarrow> memo (enter s pos k) = memo (enter t pos k)"
  by (simp add: enter_def install_def posm_set_def posm_of_def Let_def map_of_append)

lemma memo_posm_set_cong:
  "memo s = memo t \<Longrightarrow> memo (posm_set s pos k e) = memo (posm_set t pos k e)"
  by (simp add: posm_set_def posm_of_def)

lemma lookup_present: "lookup st pos k \<noteq> None \<Longrightarrow> map_of (memo st) pos \<noteq> None"
  by (auto simp: lookup_def posm_of_def split: option.splits)

lemma install_present: "lookup st pos k \<noteq> None \<Longrightarrow> install st pos = st"
  using lookup_present[of st pos k] by (simp add: install_def)

lemma shape_update:
  "map_of al p = Some pm \<Longrightarrow> map fst v = map fst pm
   \<Longrightarrow> map (\<lambda>x. (fst x, map fst (snd x))) (AList.update p v al)
       = map (\<lambda>x. (fst x, map fst (snd x))) al"
  by (induction al) (auto split: if_splits)

lemma shape_posm_set:
  assumes "lookup st pos k \<noteq> None"
  shows "shape (posm_set st pos k e) = shape st"
proof -
  from lookup_present[OF assms] obtain pm where pm: "map_of (memo st) pos = Some pm" by blast
  then have po: "posm_of st pos = pm" by (simp add: posm_of_def)
  have "k \<in> fst ` set pm" using assms po
    by (simp add: lookup_def map_of_eq_None_iff)
  then have "map fst (AList.update k e pm) = map fst pm" by (simp add: update_keys)
  then show ?thesis using shape_update[OF pm] by (simp add: shape_def posm_set_def po)
qed

lemma shape_counters [simp]:
  "shape (st\<lparr>hits := h\<rparr>) = shape st" "shape (st\<lparr>misses := m\<rparr>) = shape st"
  by (simp_all add: shape_def)

lemma shape_enter:
  assumes "lookup st pos k \<noteq> None"
  shows "shape (enter st pos k) = shape st"
  using shape_posm_set[OF assms] install_present[OF assms] by (simp add: enter_def Let_def)

lemma set_update:
  "x \<in> set (AList.update k v al) \<Longrightarrow> x = (k, v) \<or> x \<in> set al"
  by (induction al) (auto split: if_splits)

lemma distinct_memo_install: "distinct_memo st \<Longrightarrow> distinct_memo (install st pos)"
  by (auto simp: distinct_memo_def install_def map_of_eq_None_iff)

lemma distinct_posm_of: "distinct_memo st \<Longrightarrow> distinct (map fst (posm_of st pos))"
  by (auto simp: distinct_memo_def posm_of_def split: option.splits dest: map_of_SomeD)

lemma distinct_memo_posm_set:
  assumes "distinct_memo st"
  shows "distinct_memo (posm_set st pos k e)"
proof -
  let ?v = "AList.update k e (posm_of st pos)"
  have v: "distinct (map fst ?v)"
    using distinct_posm_of[OF assms] by (rule distinct_update)
  have a: "distinct (map fst (AList.update pos ?v (memo st)))"
    using assms unfolding distinct_memo_def by (simp add: distinct_update)
  have b: "distinct (map fst (snd x))" if "x \<in> set (AList.update pos ?v (memo st))" for x
  proof -
    from set_update[OF that] have "x = (pos, ?v) \<or> x \<in> set (memo st)" .
    then show ?thesis using v assms unfolding distinct_memo_def by auto
  qed
  show ?thesis unfolding distinct_memo_def posm_set_def using a b by simp
qed

lemma distinct_memo_counters [simp]:
  "distinct_memo (st\<lparr>hits := h\<rparr>) = distinct_memo st"
  "distinct_memo (st\<lparr>misses := m\<rparr>) = distinct_memo st"
  by (simp_all add: distinct_memo_def)

lemma distinct_memo_enter: "distinct_memo st \<Longrightarrow> distinct_memo (enter st pos k)"
  by (simp add: enter_def Let_def distinct_memo_posm_set distinct_memo_install)

lemma distinct_memo_new: "distinct_memo new_Packratter"
  by (simp add: distinct_memo_def new_Packratter_def)

lemma memo_sound_cong: "memo s = memo t \<Longrightarrow> memo_sound sc s = memo_sound sc t"
  by (simp add: memo_sound_def lookup_def posm_of_def)

lemma closed_cong: "memo s = memo t \<Longrightarrow> closed sc s = closed sc t"
  by (simp add: closed_def lookup_def posm_of_def)

lemma distinct_memo_cong: "memo s = memo t \<Longrightarrow> distinct_memo s = distinct_memo t"
  by (simp add: distinct_memo_def)

subsection \<open>What the run without memo does to the state\<close>

lemma run_distinct_memo: "preserves distinct_memo (run mz sc n k pos nm)"
  by (rule run_preserves)
     (simp_all add: distinct_memo_enter distinct_memo_posm_set distinct_memo_install)

lemma hits_enter [simp]: "hits (enter st pos k) = hits st"
  by (simp add: enter_def install_def posm_set_def Let_def)

lemma hits_posm_set [simp]: "hits (posm_set st pos k e) = hits st"
  by (simp add: posm_set_def)

lemma misses_enter [simp]: "misses (enter st pos k) = misses st + 1"
  by (simp add: enter_def install_def posm_set_def Let_def)

lemma misses_posm_set [simp]: "misses (posm_set st pos k e) = misses st"
  by (simp add: posm_set_def)

lemma run_False_hits: "preserves (\<lambda>st. hits st = h) (run False sc n k pos nm)"
  by (rule run_preserves) simp_all

lemma run_False_misses_le: "preserves (\<lambda>st. c \<le> misses st) (run False sc n k pos nm)"
  by (rule run_preserves) simp_all

lemma run_False_misses:
  assumes "run False sc n k pos nm st = Some (x, st')"
  shows "misses st < misses st'"
proof (cases n)
  case 0
  then show ?thesis using assms by simp
next
  case (Suc m)
  have pb: "preserves (\<lambda>s. misses st + 1 \<le> misses s) (run_body m (run False sc m) sc k pos nm)"
    by (rule preserves_body) (rule run_False_misses_le)
  have "preserves (\<lambda>s. misses st + 1 \<le> misses s)
          (\<lambda>st3. andThen (run_body m (run False sc m) sc k pos nm st3)
                (\<lambda>r st4. Some (Inr r, posm_set st4 pos k (Result r))))"
    by (rule preserves_andThen[OF pb]) (simp add: preserves_def)
  from preservesD[OF this, of "enter st pos k" x st'] assms show ?thesis
    unfolding Suc run_miss_body[of False, simplified] by simp
qed

lemma run_False_sound: "preserves (memo_sound sc) (run False sc n k pos nm)"
proof (induction n arbitrary: k pos nm)
  case 0
  show ?case by (simp add: preserves_def)
next
  case (Suc n)
  show ?case
    unfolding preserves_def
  proof (intro allI impI)
    fix st x st'
    assume ok: "memo_sound sc st" and r: "run False sc (Suc n) k pos nm st = Some (x, st')"
    have pb: "preserves (memo_sound sc) (run_body n (run False sc n) sc k pos nm)"
      by (rule preserves_body) (rule Suc.IH)
    have ok3: "memo_sound sc (enter st pos k)"
      using ok by (rule memo_sound_lookup) (auto split: if_splits)
    let ?fin = "\<lambda>r st4. Some (Inr r :: outcome, posm_set st4 pos k (Result r))"
    have r': "andThen (run_body n (run False sc n) sc k pos nm (enter st pos k)) ?fin = Some (x, st')"
      using r unfolding run_miss_body[of False, simplified] .
    show "memo_sound sc st'"
    proof (cases "run_body n (run False sc n) sc k pos nm (enter st pos k)")
      case None
      then show ?thesis using r' by simp
    next
      case (Some y)
      obtain o1 s4 where y: "y = (o1, s4)" by (cases y)
      have s4: "memo_sound sc s4" using preservesD[OF pb ok3] Some y by simp
      show ?thesis
      proof (cases o1)
        case (Inl e)
        then show ?thesis using r' Some y s4 by simp
      next
        case (Inr r0)
        then have e: "x = Inr r0" "st' = posm_set s4 pos k (Result r0)"
          using r' Some y by auto
        have g: "good sc k pos r0" using r e(1) by (auto intro: good_intro)
        show ?thesis
          unfolding e
        proof (rule memo_sound_lookup[OF s4])
          fix p k' r'
          assume "lookup (posm_set s4 pos k (Result r0)) p k' = Some (Result r')"
          then show "lookup s4 p k' = Some (Result r') \<or> good sc k' p r'"
            using g by (cases "p = pos \<and> k' = k") auto
        qed
      qed
    qed
  qed
qed

lemma run_False_probes:
  "rel_runner (\<lambda>s t. t = s \<and> (\<forall>p k. lookup s p k = Some LEFT_RECUR \<longrightarrow> (p, k) \<in> A))
     (\<lambda>e s t. True) (run False sc n) (run False sc n)"
proof (induction n arbitrary: A)
  case 0
  show ?case by (simp add: rel_runner_def)
next
  case (Suc n)
  show ?case
    unfolding rel_runner_def
  proof (intro allI impI)
    fix k pos name s t
    assume R: "t = s \<and> (\<forall>p k. lookup s p k = Some LEFT_RECUR \<longrightarrow> (p, k) \<in> A)"
    let ?R' = "\<lambda>s t. t = s \<and> (\<forall>p k'. lookup s p k' = Some LEFT_RECUR \<longrightarrow> (p, k') \<in> insert (pos, k) A)"
    have b: "rel_out ?R' (\<lambda>e s t. True) (run_body n (run False sc n) sc k pos name (enter s pos k))
               (run_body n (run False sc n) sc k pos name (enter s pos k))"
      by (rule rel_body[OF Suc.IH[of "insert (pos, k) A"]]) (use R in \<open>auto split: if_splits\<close>)
    have ts: "t = s" using R by simp
    have ex: "posm_set t4 pos k (Result r) = posm_set s4 pos k (Result r)
              \<and> (\<forall>p k'. lookup (posm_set s4 pos k (Result r)) p k' = Some LEFT_RECUR
                    \<longrightarrow> (p, k') \<in> A)"
      if "?R' s4 t4" for r s4 t4
      using that by (fastforce split: if_splits)
    show "rel_out (\<lambda>s t. t = s \<and> (\<forall>p k. lookup s p k = Some LEFT_RECUR \<longrightarrow> (p, k) \<in> A))
            (\<lambda>e s t. True) (run False sc (Suc n) k pos name s) (run False sc (Suc n) k pos name t)"
      unfolding run_miss_body[of False, simplified] ts
      by (rule rel_out_exit[OF b]) (rule ex)
  qed
qed

lemma run_False_no_probes:
  assumes "run False sc n k pos nm st = Some (Inr r, st')" "lookup st' p k' = Some LEFT_RECUR"
  shows "lookup st p k' = Some LEFT_RECUR"
proof -
  let ?A = "{(p, k). lookup st p k = Some LEFT_RECUR}"
  from rel_outD[OF rel_runnerD[OF run_False_probes[of ?A sc n], of st st k pos nm] assms(1)]
  show ?thesis using assms by auto
qed

lemma over_refl: "over s s new_Packratter"
  by (simp add: over_def)

lemma over_posm_set:
  assumes "over s0 s t"
  shows "over s0 (posm_set s pos k e) (posm_set t pos k e)"
  unfolding over_def
proof (intro conjI allI impI)
  fix p k'
  show "lookup (posm_set s pos k e) p k'
          = (case lookup (posm_set t pos k e) p k' of None \<Rightarrow> lookup s0 p k' | Some e \<Rightarrow> Some e)"
    using assms unfolding over_def by simp
next
  assume H: "\<forall>p k'. lookup (posm_set t pos k e) p k' \<noteq> None \<longrightarrow> lookup s0 p k' \<noteq> None"
  have "\<forall>p k'. lookup t p k' \<noteq> None \<longrightarrow> lookup s0 p k' \<noteq> None"
  proof (intro allI impI)
    fix p k' assume "lookup t p k' \<noteq> None"
    then have "lookup (posm_set t pos k e) p k' \<noteq> None" by simp
    then show "lookup s0 p k' \<noteq> None" using H by blast
  qed
  then have sh: "shape s = shape s0" using assms unfolding over_def by blast
  have "lookup s0 pos k \<noteq> None" using H[rule_format, of pos k] by simp
  then have "lookup s pos k \<noteq> None"
    using assms unfolding over_def by (auto split: option.splits)
  from shape_posm_set[OF this] sh show "shape (posm_set s pos k e) = shape s0" by simp
qed

lemma over_enter:
  assumes "over s0 s t"
  shows "over s0 (enter s pos k) (enter t pos k)"
  unfolding over_def
proof (intro conjI allI impI)
  fix p k'
  show "lookup (enter s pos k) p k'
          = (case lookup (enter t pos k) p k' of None \<Rightarrow> lookup s0 p k' | Some e \<Rightarrow> Some e)"
    using assms unfolding over_def by simp
next
  assume H: "\<forall>p k'. lookup (enter t pos k) p k' \<noteq> None \<longrightarrow> lookup s0 p k' \<noteq> None"
  have "\<forall>p k'. lookup t p k' \<noteq> None \<longrightarrow> lookup s0 p k' \<noteq> None"
  proof (intro allI impI)
    fix p k' assume "lookup t p k' \<noteq> None"
    then have "lookup (enter t pos k) p k' \<noteq> None" by simp
    then show "lookup s0 p k' \<noteq> None" using H by blast
  qed
  then have sh: "shape s = shape s0" using assms unfolding over_def by blast
  have "lookup s0 pos k \<noteq> None" using H[rule_format, of pos k] by simp
  then have "lookup s pos k \<noteq> None"
    using assms unfolding over_def by (auto split: option.splits)
  from shape_enter[OF this] sh show "shape (enter s pos k) = shape s0" by simp
qed

lemma run_False_over:
  "rel_runner (over s0) (\<lambda>e s t. True) (run False sc n) (run False sc n)"
proof (induction n)
  case 0
  show ?case by (simp add: rel_runner_def)
next
  case (Suc n)
  show ?case
    unfolding rel_runner_def
  proof (intro allI impI)
    fix k pos name s t
    assume R: "over s0 s t"
    have b: "rel_out (over s0) (\<lambda>e s t. True) (run_body n (run False sc n) sc k pos name (enter s pos k))
               (run_body n (run False sc n) sc k pos name (enter t pos k))"
      by (rule rel_body[OF Suc.IH over_enter[OF R]]) simp
    show "rel_out (over s0) (\<lambda>e s t. True) (run False sc (Suc n) k pos name s)
            (run False sc (Suc n) k pos name t)"
      unfolding run_miss_body[of False, simplified]
      by (rule rel_out_exit[OF b]) (rule over_posm_set)
  qed
qed

text \<open>The state that the run without memo leaves when it starts from a new state.\<close>

lemma run_False_footprint:
  assumes "run False sc n k pos nm st = Some (Inr r, st')"
  shows "\<exists>t. run False sc n k pos nm new_Packratter = Some (Inr r, t) \<and> over st st' t
             \<and> (\<forall>p k' e. lookup t p k' = Some e \<longrightarrow> (\<exists>r'. e = Result r' \<and> good sc k' p r'))"
proof -
  from rel_outD[OF rel_runnerD[OF run_False_over over_refl] assms] obtain t where
    t: "run False sc n k pos nm new_Packratter = Some (Inr r, t)" and o: "over st st' t"
    by auto
  have ms: "memo_sound sc t" using preservesD[OF run_False_sound memo_sound_new t] .
  have "\<exists>r'. e = Result r' \<and> good sc k' p r'" if "lookup t p k' = Some e" for p k' e
  proof (cases e)
    case LEFT_RECUR
    then show ?thesis using run_False_no_probes[OF t, of p k'] that by simp
  next
    case (Result r')
    then show ?thesis using ms that unfolding memo_sound_def by blast
  qed
  then show ?thesis using t o by blast
qed

text \<open>
  Where the memo holds a result, evaluating the key again without the memo returns that
  result and leaves the memo as it was.
\<close>

lemma run_False_restores:
  assumes r: "run False sc n k pos nm s = Some (x, s')"
    and l: "lookup s pos k = Some (Result r0)"
    and ms: "memo_sound sc s" and cl: "closed sc s" and d: "distinct_memo s"
  shows "x = Inr r0 \<and> memo s' = memo s"
proof -
  have g: "good sc k pos r0" using ms l unfolding memo_sound_def by blast
  then obtain m0 u where m0: "run False sc m0 k pos nm s = Some (Inr r0, u)"
    unfolding good_def by blast
  have x: "x = Inr r0"
    using run_mono[OF _ m0, of "max m0 n"] run_mono[OF _ r, of "max m0 n"] by simp
  from run_False_footprint[OF r[unfolded x]] obtain t where
    t: "run False sc n k pos nm new_Packratter = Some (Inr r0, t)" and o: "over s s' t"
    and res: "\<forall>p k' e. lookup t p k' = Some e \<longrightarrow> (\<exists>r'. e = Result r' \<and> good sc k' p r')"
    by blast
  have inside: "\<exists>r'. lookup s p k' = Some (Result r')" if "lookup t p k' = Some e" for p k' e
    using cl l t that unfolding closed_def by blast
  have "\<forall>p k'. lookup t p k' \<noteq> None \<longrightarrow> lookup s p k' \<noteq> None"
    using inside by fastforce
  then have sh: "shape s' = shape s" using o unfolding over_def by blast
  have lk: "lookup s' p k' = lookup s p k'" for p k'
  proof (cases "lookup t p k'")
    case None
    then show ?thesis using o unfolding over_def by simp
  next
    case (Some e)
    from res Some obtain r1 where r1: "e = Result r1" "good sc k' p r1" by blast
    from inside[OF Some] obtain r2 where r2: "lookup s p k' = Some (Result r2)" by blast
    then have "good sc k' p r2" using ms unfolding memo_sound_def by blast
    then have "r1 = r2" using r1(2) good_unique by blast
    moreover have "lookup s' p k' = Some e" using o Some unfolding over_def by simp
    ultimately show ?thesis using r1(1) r2 by simp
  qed
  have d': "distinct_memo s'" using preservesD[OF run_distinct_memo d r] .
  have "memo s' = memo s" by (rule memo_ext[OF d' sh]) (simp add: lk)
  with x show ?thesis by simp
qed

subsection \<open>What the run without memo returns, the memo returns, with the same memo\<close>

lemma starved_mono: "starved sc m x \<Longrightarrow> n \<le> m \<Longrightarrow> starved sc n x"
  unfolding starved_def
  by (metis run_mono option.exhaust)

lemma in_progressI:
  assumes "memo_sound sc st"
    and "\<And>p k. lookup st p k = Some LEFT_RECUR \<Longrightarrow> (p, k) \<in> L"
  shows "in_progress sc L st"
  using assms unfolding in_progress_def by blast

lemma in_progress_sound: "in_progress sc L st \<Longrightarrow> memo_sound sc st"
  unfolding in_progress_def by blast

lemma in_progress_probe: "in_progress sc L st \<Longrightarrow> lookup st p k = Some LEFT_RECUR \<Longrightarrow> (p, k) \<in> L"
  unfolding in_progress_def by blast

lemma in_progress_new: "in_progress sc {} new_Packratter"
  by (simp add: in_progress_def memo_sound_new)

lemma closed_grows:
  assumes "closed sc t"
    and "\<And>p k r. lookup t' p k = Some (Result r) \<Longrightarrow> (p, k) \<noteq> x
           \<Longrightarrow> lookup t p k = Some (Result r)"
    and "\<And>p k r. lookup t p k = Some (Result r) \<Longrightarrow> \<exists>r'. lookup t' p k = Some (Result r')"
    and "\<And>r n nm y u p k' e. lookup t' (fst x) (snd x) = Some (Result r)
           \<Longrightarrow> run False sc n (snd x) (fst x) nm new_Packratter = Some (y, u)
           \<Longrightarrow> lookup u p k' = Some e \<Longrightarrow> \<exists>r'. lookup t' p k' = Some (Result r')"
  shows "closed sc t'"
  unfolding closed_def
proof (intro allI impI)
  fix pos k r n nm y u p k' e
  assume l: "lookup t' pos k = Some (Result r)"
    and f: "run False sc n k pos nm new_Packratter = Some (y, u)"
    and e: "lookup u p k' = Some e"
  show "\<exists>r'. lookup t' p k' = Some (Result r')"
  proof (cases "(pos, k) = x")
    case True
    then show ?thesis using assms(4)[of r n nm y u p k' e] l f e by auto
  next
    case False
    from assms(2)[OF l False] have "lookup t pos k = Some (Result r)" .
    then obtain r' where "lookup t p k' = Some (Result r')"
      using assms(1) f e unfolding closed_def by blast
    then show ?thesis using assms(3) by blast
  qed
qed

lemma closed_new: "closed sc new_Packratter"
  by (simp add: closed_def)

lemma lockstep_new: "lockstep sc {} new_Packratter new_Packratter"
  by (simp add: lockstep_def in_progress_new closed_new distinct_memo_new)
     (simp add: new_Packratter_def)

lemma run_lockstep:
  "(\<forall>x \<in> L. starved sc n x)
   \<Longrightarrow> rel_runner (lockstep sc L) same_memo (run False sc n) (run True sc n)"
proof (induction n arbitrary: L)
  case 0
  show ?case by (simp add: rel_runner_def)
next
  case (Suc n)
  have st_n: "\<forall>x \<in> L. starved sc n x" using Suc.prems starved_mono by (metis le_SucI order_refl)
  show ?case
    unfolding rel_runner_def
  proof (intro allI impI)
    fix k pos name s t
    assume R: "lockstep sc L s t"
    have ms: "memo s = memo t" and cnt: "hits t + misses t \<le> misses s"
      and J: "in_progress sc L t" and cl: "closed sc t" and d: "distinct_memo t"
      using R unfolding lockstep_def by auto
    show "rel_out (lockstep sc L) same_memo (run False sc (Suc n) k pos name s)
            (run True sc (Suc n) k pos name t)"
    proof (cases "run False sc (Suc n) k pos name s")
      case None
      then show ?thesis by simp
    next
      case (Some y)
      obtain x s1 where y: "y = (x, s1)" by (cases y)
      have pure: "run False sc (Suc n) k pos name s = Some (x, s1)" using Some y by simp
      show ?thesis
      proof (cases "starved sc n (pos, k)")
        case False
        then obtain nm' st' where "run False sc n k pos nm' st' \<noteq> None"
          unfolding starved_def by auto
        then have "run False sc n k pos name s \<noteq> None"
          using run_False_None[of sc n k pos name s nm' st'] by simp
        then obtain z where z: "run False sc n k pos name s = Some z" by blast
        have z': "z = (x, s1)" using run_mono[OF _ z, of "Suc n"] pure by simp
        from rel_outD[OF rel_runnerD[OF Suc.IH[OF st_n] R] z[unfolded z']] obtain t' where
          t': "run True sc n k pos name t = Some (x, t')"
          and c: "case x of Inr r \<Rightarrow> lockstep sc L s1 t' | Inl e \<Rightarrow> same_memo e s1 t'"
          by blast
        have "run True sc (Suc n) k pos name t = Some (x, t')"
          using run_mono[OF _ t', of "Suc n"] by simp
        then show ?thesis using pure c by (simp add: rel_out_def)
      next
        case True
        show ?thesis
        proof (cases "lookup t pos k")
          case (Some e)
          show ?thesis
          proof (cases e)
            case LEFT_RECUR
            then have "(pos, k) \<in> L" using J Some unfolding in_progress_def by blast
            then have "run False sc (Suc n) k pos name s = None"
              using Suc.prems unfolding starved_def by auto
            then show ?thesis by simp
          next
            case (Result r0)
            have ls: "lookup s pos k = Some (Result r0)"
              using Some Result lookup_cong[OF ms] by simp
            have "memo_sound sc s" "closed sc s" "distinct_memo s"
              using in_progress_sound[OF J] cl d memo_sound_cong[OF ms] closed_cong[OF ms]
                distinct_memo_cong[OF ms] by auto
            from run_False_restores[OF pure ls this] have x: "x = Inr r0" and m1: "memo s1 = memo s"
              by auto
            let ?t' = "t\<lparr>hits := hits t + 1\<rparr>"
            have i: "install t pos = t" using Some by (intro install_present[of t pos k]) simp
            have T: "run True sc (Suc n) k pos name t = Some (Inr r0, ?t')"
              using run_hit[of t pos k r0 sc n name] Some Result i by simp
            have "in_progress sc L ?t'"
            proof (rule in_progressI)
              show "memo_sound sc ?t'"
                using in_progress_sound[OF J] by (rule memo_sound_lookup) auto
            qed (use in_progress_probe[OF J] in auto)
            moreover have "closed sc ?t'" using cl by (simp add: closed_def)
            moreover have "hits ?t' + misses ?t' \<le> misses s1"
              using cnt run_False_misses[OF pure] by simp
            ultimately have "lockstep sc L s1 ?t'"
              using m1 ms d by (simp add: lockstep_def)
            then show ?thesis using pure T x by simp
          qed
        next
          case None
          let ?L = "insert (pos, k) L"
          have st': "\<forall>x \<in> ?L. starved sc n x" using st_n True by simp
          note F = Suc.IH[OF st']
          have J': "in_progress sc ?L (enter t pos k)"
          proof (rule in_progressI)
            show "memo_sound sc (enter t pos k)"
              using in_progress_sound[OF J] by (rule memo_sound_lookup) (auto split: if_splits)
          qed (use in_progress_probe[OF J] in \<open>auto split: if_splits\<close>)
          have cl': "closed sc (enter t pos k)"
          proof (rule closed_grows[OF cl, of _ "(pos, k)"])
            fix p k' r assume "lookup t p k' = Some (Result r)"
            then show "\<exists>r'. lookup (enter t pos k) p k' = Some (Result r')"
              using None by (cases "p = pos \<and> k' = k") auto
          qed (auto split: if_splits)
          have R': "lockstep sc ?L (enter s pos k) (enter t pos k)"
            using J' cl' cnt memo_enter_cong[OF ms] distinct_memo_enter[OF d]
            by (simp add: lockstep_def)
          have E': "same_memo e (enter s pos k) (enter t pos k)" for e
            using cnt memo_enter_cong[OF ms] by (simp add: same_memo_def)
          have b: "rel_out (lockstep sc ?L) same_memo
                     (run_body n (run False sc n) sc k pos name (enter s pos k))
                     (run_body n (run True sc n) sc k pos name (enter t pos k))"
            by (rule rel_body[OF F R' E'])
          have ex: "lockstep sc L (posm_set s4 pos k (Result r)) (posm_set t4 pos k (Result r))"
            if a: "run_body n (run False sc n) sc k pos name (enter s pos k) = Some (Inr r, s4)"
              and R4: "lockstep sc ?L s4 t4" for r s4 t4
          proof -
            have ms4: "memo s4 = memo t4" and cnt4: "hits t4 + misses t4 \<le> misses s4"
              and J4: "in_progress sc ?L t4" and cl4: "closed sc t4" and d4: "distinct_memo t4"
              using R4 unfolding lockstep_def by auto
            let ?s' = "posm_set s4 pos k (Result r)" and ?t' = "posm_set t4 pos k (Result r)"
            have pure': "run False sc (Suc n) k pos name s = Some (Inr r, ?s')"
              unfolding run_miss_body[of False, simplified] using a by simp
            have g: "good sc k pos r" using pure' by (rule good_intro)
            have m': "memo ?s' = memo ?t'" using ms4 by (rule memo_posm_set_cong)
            have J5: "in_progress sc L ?t'"
            proof (rule in_progressI)
              show "memo_sound sc ?t'"
              proof (rule memo_sound_lookup[OF in_progress_sound[OF J4]])
                fix p k' r'
                assume "lookup ?t' p k' = Some (Result r')"
                then show "lookup t4 p k' = Some (Result r') \<or> good sc k' p r'"
                  using g by (cases "p = pos \<and> k' = k") auto
              qed
            next
              fix p k'
              assume "lookup ?t' p k' = Some LEFT_RECUR"
              then have "lookup t4 p k' = Some LEFT_RECUR" "(p, k') \<noteq> (pos, k)"
                by (auto split: if_splits)
              then show "(p, k') \<in> L" using in_progress_probe[OF J4] by auto
            qed
            have cl5: "closed sc ?t'"
            proof (rule closed_grows[OF cl4, of _ "(pos, k)"])
              fix p k' r' assume "lookup t4 p k' = Some (Result r')"
              then show "\<exists>r'. lookup ?t' p k' = Some (Result r')"
                by (cases "p = pos \<and> k' = k") auto
            next
              fix r' n' nm' y u p k' e
              assume f: "run False sc n' (snd (pos, k)) (fst (pos, k)) nm' new_Packratter = Some (y, u)"
                and e: "lookup u p k' = Some e"
              from run_False_footprint[OF pure'] obtain t0 where
                t0: "run False sc (Suc n) k pos name new_Packratter = Some (Inr r, t0)"
                and o: "over s ?s' t0"
                and res: "\<forall>p k' e. lookup t0 p k' = Some e \<longrightarrow> (\<exists>r'. e = Result r' \<and> good sc k' p r')"
                by blast
              have t0': "run False sc (Suc n) k pos nm' new_Packratter = Some (Inr r, t0)"
                using t0 by (rule run_False_name)
              have "(y, u) = (Inr r, t0)"
                using run_mono[OF _ t0', of "max n' (Suc n)"] f run_mono[of n' "max n' (Suc n)" False sc k pos nm' new_Packratter "(y, u)"]
                by simp
              then have "lookup t0 p k' = Some e" using e by simp
              moreover from this res obtain r'' where "e = Result r''" by blast
              ultimately have "lookup ?s' p k' = Some (Result r'')"
                using o unfolding over_def by simp
              then show "\<exists>r'. lookup ?t' p k' = Some (Result r')"
                using lookup_cong[OF m'] by auto
            qed (auto split: if_splits)
            show ?thesis
              using m' cnt4 J5 cl5 distinct_memo_posm_set[OF d4]
              by (simp add: lockstep_def)
          qed
          show ?thesis
            unfolding run_miss_body[of False, simplified] run_miss_body[of True t pos k, simplified, OF None]
            by (rule rel_out_exit[OF b]) (rule ex)
        qed
      qed
    qed
  qed
qed

lemma memo_run_follows:
  assumes "run False sc m k pos nm new_Packratter = Some (x, sF)"
  shows "\<exists>sT. run True sc m k pos nm new_Packratter = Some (x, sT) \<and> memo sT = memo sF
              \<and> hits sF = 0 \<and> hits sT + misses sT \<le> misses sF"
proof -
  have "\<forall>y \<in> {}. starved sc m y" by simp
  from rel_outD[OF rel_runnerD[OF run_lockstep[OF this] lockstep_new] assms] obtain sT where
    t: "run True sc m k pos nm new_Packratter = Some (x, sT)"
    and c: "case x of Inr r \<Rightarrow> lockstep sc {} sF sT | Inl e \<Rightarrow> same_memo e sF sT"
    by blast
  have "memo sT = memo sF \<and> hits sT + misses sT \<le> misses sF"
    using c by (cases x) (simp_all add: lockstep_def same_memo_def)
  moreover have "hits sF = 0"
    using preservesD[OF run_False_hits[of 0], of new_Packratter sc m k pos nm x sF] assms
    by (simp add: new_Packratter_def)
  ultimately show ?thesis using t by blast
qed

lemma memo_free_run_follows:
  assumes "run True sc n k pos nm new_Packratter = Some (x, sT)" "\<not> leftRecursion x"
  shows "\<exists>m sF. run False sc m k pos nm new_Packratter = Some (x, sF) \<and> memo sF = memo sT
              \<and> hits sF = 0 \<and> hits sT + misses sT \<le> misses sF"
proof -
  from run_sound[OF memo_sound_new assms] obtain m sF where
    f: "run False sc m k pos nm new_Packratter = Some (x, sF)" by blast
  from memo_run_follows[OF f] obtain sT' where
    t: "run True sc m k pos nm new_Packratter = Some (x, sT')" and e: "memo sT' = memo sF"
      "hits sF = 0" "hits sT' + misses sT' \<le> misses sF" by blast
  have "sT' = sT" using run_unique[OF t assms(1)] by simp
  then show ?thesis using f e by auto
qed

lemma left_recursion_starves:
  assumes "run True sc n k pos nm new_Packratter = Some (x, sT)" "leftRecursion x"
  shows "run False sc m k pos nm new_Packratter = None"
proof (rule ccontr)
  assume "run False sc m k pos nm new_Packratter \<noteq> None"
  then obtain y sF where f: "run False sc m k pos nm new_Packratter = Some (y, sF)" by auto
  from memo_run_follows[OF f] obtain sT' where
    "run True sc m k pos nm new_Packratter = Some (y, sT')" by blast
  from run_unique[OF this assms(1)] have "y = x" by simp
  then show False using run_False_no_leftRecursion[OF f] assms(2) by simp
qed

text \<open>A missing rule: both runs throw the same error and leave the same state.\<close>

lemma missing_rule_agrees:
  "run True scanner_D 3 (KFun (F_rule 0)) 0 ''D'' new_Packratter
     = Some (Inl (Error ''Rule missing: C''),
             \<lparr>memo = [(0, [(KFun (F_rule 0), LEFT_RECUR),
                            (KPatt (PStr ''x''), Result (1, Str ''x'')),
                            (KFun F_COMMENT, Result (0, FAIL))]),
                       (1, [(KUndef, LEFT_RECUR)])],
              hits = 0, misses = 4\<rparr>)
   \<and> run False scanner_D 3 (KFun (F_rule 0)) 0 ''D'' new_Packratter
     = run True scanner_D 3 (KFun (F_rule 0)) 0 ''D'' new_Packratter"
  by code_simp

text \<open>
  C1, as amended. From a new substrate: (1) what the memoizing run returns, outcome and
  state, does not depend on the budget, so two parses from new substrates return the same;
  (2) whatever the variant whose every lookup misses returns, a result or the error of a
  missing rule, the memoizing run returns too, and the two final states hold the same memo
  and differ in the counters only (no hit without the memo, and at least as many misses as
  the memoizing run has hits and misses); (3) whatever the memoizing run returns, either it
  is the error of left recursion and the variant returns nothing, whatever its budget, or
  the variant returns the same, again with the same memo.
\<close>

theorem memoization_equivalence:
  "(\<forall>n n' a b. run True sc n k pos nm new_Packratter = Some a
        \<and> run True sc n' k pos nm new_Packratter = Some b \<longrightarrow> a = b)
   \<and> (\<forall>m x sF. run False sc m k pos nm new_Packratter = Some (x, sF) \<longrightarrow>
         (\<exists>n sT. run True sc n k pos nm new_Packratter = Some (x, sT) \<and> memo sT = memo sF
                  \<and> hits sF = 0 \<and> hits sT + misses sT \<le> misses sF))
   \<and> (\<forall>n x sT. run True sc n k pos nm new_Packratter = Some (x, sT) \<longrightarrow>
         (if leftRecursion x then \<forall>m. run False sc m k pos nm new_Packratter = None
          else \<exists>m sF. run False sc m k pos nm new_Packratter = Some (x, sF) \<and> memo sF = memo sT
                  \<and> hits sF = 0 \<and> hits sT + misses sT \<le> misses sF))"
proof (intro conjI allI impI)
  fix n n' a b
  assume "run True sc n k pos nm new_Packratter = Some a
        \<and> run True sc n' k pos nm new_Packratter = Some b"
  then show "a = b" using run_unique by blast
next
  fix m x sF
  assume "run False sc m k pos nm new_Packratter = Some (x, sF)"
  from memo_run_follows[OF this]
  show "\<exists>n sT. run True sc n k pos nm new_Packratter = Some (x, sT) \<and> memo sT = memo sF
                  \<and> hits sF = 0 \<and> hits sT + misses sT \<le> misses sF"
    by blast
next
  fix n x sT
  assume t: "run True sc n k pos nm new_Packratter = Some (x, sT)"
  show "if leftRecursion x then \<forall>m. run False sc m k pos nm new_Packratter = None
          else \<exists>m sF. run False sc m k pos nm new_Packratter = Some (x, sF) \<and> memo sF = memo sT
                  \<and> hits sF = 0 \<and> hits sT + misses sT \<le> misses sF"
    using left_recursion_starves[OF t] memo_free_run_follows[OF t] by simp
qed

theorem memoization_equivalence_witness:
  "run False scanner_B 5 (KFun (F_rule 0)) 0 ''B'' new_Packratter
     = Some (Inr (3, List [Str ''x'', Str ''x'']), \<lparr>memo = memo_B, hits = 0, misses = 11\<rparr>)
   \<and> run True scanner_B 5 (KFun (F_rule 0)) 0 ''B'' new_Packratter
     = Some (Inr (3, List [Str ''x'', Str ''x'']), \<lparr>memo = memo_B, hits = 2, misses = 8\<rparr>)
   \<and> run True scanner_B 7 (KFun (F_rule 0)) 0 ''B'' new_Packratter
     = run True scanner_B 5 (KFun (F_rule 0)) 0 ''B'' new_Packratter
   \<and> (\<exists>n sT. run True scanner_B n (KFun (F_rule 0)) 0 ''B'' new_Packratter
                = Some (Inr (3, List [Str ''x'', Str ''x'']), sT)
              \<and> memo sT = memo_B \<and> hits sT + misses sT \<le> 11)
   \<and> (\<exists>m sF. run False scanner_B m (KFun (F_rule 0)) 0 ''B'' new_Packratter
                = Some (Inr (3, List [Str ''x'', Str ''x'']), sF)
              \<and> memo sF = memo_B \<and> hits sF = 0 \<and> 2 + 8 \<le> misses sF)"
proof -
  let ?r = "Inr (3, List [Str ''x'', Str ''x'']) :: outcome"
  have f: "run False scanner_B 5 (KFun (F_rule 0)) 0 ''B'' new_Packratter
     = Some (?r, \<lparr>memo = memo_B, hits = 0, misses = 11\<rparr>)"
    by code_simp
  have t: "run True scanner_B 5 (KFun (F_rule 0)) 0 ''B'' new_Packratter
     = Some (?r, \<lparr>memo = memo_B, hits = 2, misses = 8\<rparr>)"
    by code_simp
  have "run True scanner_B 7 (KFun (F_rule 0)) 0 ''B'' new_Packratter \<noteq> None"
    by code_simp
  then obtain b where t7: "run True scanner_B 7 (KFun (F_rule 0)) 0 ''B'' new_Packratter = Some b"
    by auto
  note E = memoization_equivalence[of scanner_B "KFun (F_rule 0)" 0 "''B''"]
  have one: "b = (?r, \<lparr>memo = memo_B, hits = 2, misses = 8\<rparr>)"
    using E[THEN conjunct1, rule_format, of 7 b 5] t7 t by simp
  have two: "\<exists>n sT. run True scanner_B n (KFun (F_rule 0)) 0 ''B'' new_Packratter = Some (?r, sT)
              \<and> memo sT = memo_B \<and> hits sT + misses sT \<le> 11"
    using E[THEN conjunct2, THEN conjunct1, rule_format, OF f] by simp
  have three: "\<exists>m sF. run False scanner_B m (KFun (F_rule 0)) 0 ''B'' new_Packratter = Some (?r, sF)
              \<and> memo sF = memo_B \<and> hits sF = 0 \<and> 2 + 8 \<le> misses sF"
    using E[THEN conjunct2, THEN conjunct2, rule_format, OF t] by simp
  show ?thesis using f t t7 one two three by simp
qed

text \<open>
  The property as the specification states it fails where a rule is entered again at the
  position at which it is being evaluated: for \<^verbatim>\<open>A ::= A "x" / "x";\<close> on the tokens of
  \<^verbatim>\<open>x x\<close> the memoizing run throws the error of left recursion, and the variant whose every
  lookup misses returns nothing, whatever the budget.
\<close>

theorem memo_free_run_diverges:
  "run True scanner_x_x 2 (KFun (F_rule 0)) 0 ''A'' new_Packratter
     = Some (Inl (Error ''Left recursion on rule: A''), in_rule_A)
   \<and> (\<forall>m. run False scanner_x_x m (KFun (F_rule 0)) 0 ''A'' new_Packratter = None)"
proof -
  have "run True scanner_x_x 2 (KFun (F_rule 0)) 0 ''A'' new_Packratter
     = Some (Inl (Error ''Left recursion on rule: A''), in_rule_A)"
    by code_simp
  then show ?thesis using left_recursion_diverges by blast
qed

end
